theory Spec2Isabelle
  imports Main "HOL-Library.Signed_Division" "HOL-Library.Sublist"
begin

section \<open>JavaScript values and built-ins used by the cipher\<close>

text \<open>
  The program is the three-rotor cipher machine of \<^verbatim>\<open>enigma.js\<close>. A JavaScript string is
  modelled as a \<^typ>\<open>string\<close>, one \<^typ>\<open>char\<close> per element of \<^verbatim>\<open>text.split('')\<close>; the
  program only ever compares such an element with the letters of its tables, so an element
  outside the range of \<^typ>\<open>char\<close> behaves like any other character that is not \<open>A\<close>..\<open>Z\<close>.
  Rotor positions and ring settings are integers (\<^typ>\<open>int\<close>); the non-integral numbers and
  \<^verbatim>\<open>NaN\<close> of JavaScript are outside the model.

  The value travelling through the substitution pipeline is a one-character string or
  \<^verbatim>\<open>undefined\<close>, which is what an out-of-range \<^verbatim>\<open>s[i]\<close> evaluates to.
\<close>

datatype error = TypeError

type_synonym jsval = "char option"

text \<open>\<^verbatim>\<open>s[i]\<close> on a string or an array: \<^verbatim>\<open>undefined\<close> outside the table.\<close>

definition charAt :: "'a list \<Rightarrow> int \<Rightarrow> 'a option" where
  "charAt s i = (if 0 \<le> i \<and> i < int (length s) then Some (s ! nat i) else None)"

text \<open>The argument of \<^verbatim>\<open>indexOf\<close> is converted to a string first.\<close>

definition toStr :: "jsval \<Rightarrow> string" where
  "toStr v = (case v of None \<Rightarrow> ''undefined'' | Some c \<Rightarrow> [c])"

text \<open>\<^verbatim>\<open>s.indexOf(pat)\<close>: the first index at which \<open>pat\<close> occurs in \<open>s\<close>, or \<open>-1\<close>.\<close>

fun indexOfFrom :: "string \<Rightarrow> string \<Rightarrow> int \<Rightarrow> int" where
  "indexOfFrom pat [] k = (if pat = [] then k else - 1)"
| "indexOfFrom pat (x # xs) k =
     (if prefix pat (x # xs) then k else indexOfFrom pat xs (k + 1))"

definition indexOf :: "string \<Rightarrow> string \<Rightarrow> int" where
  "indexOf s pat = indexOfFrom pat s 0"

definition includes_js :: "string \<Rightarrow> string \<Rightarrow> bool" where
  "includes_js s pat = (indexOf s pat \<noteq> - 1)"

text \<open>
  \<^verbatim>\<open>function mod(n, m) { return ((n % m) + m) % m; }\<close> where \<^verbatim>\<open>%\<close> is the remainder
  of truncated division, whose sign follows the dividend.
\<close>

definition mod_js :: "int \<Rightarrow> int \<Rightarrow> int" where
  "mod_js n m = ((n smod m) + m) smod m"

section \<open>Tables\<close>

definition alphabet :: string where
  "alphabet = ''ABCDEFGHIJKLMNOPQRSTUVWXYZ''"

text \<open>The catalog: wiring and notch of rotors I, II and III.\<close>

definition ROTORS :: "(string \<times> char) list" where
  "ROTORS =
     [(''EKMFLGDQVZNTOWYHXUSPAIBRCJ'', CHR ''Q''),
      (''AJDKSIRUXBLHWTMCQGZNPYFVOE'', CHR ''E''),
      (''BDFHJLCPRTXVZNYEIWGAKMUSQO'', CHR ''V'')]"

definition REFLECTOR :: string where
  "REFLECTOR = ''YRUHQSLDPXNGOKMIEBFZCWVJAT''"

section \<open>Plugboard\<close>

fun plugboardSwap :: "jsval \<Rightarrow> (char \<times> char) list \<Rightarrow> jsval" where
  "plugboardSwap c [] = c"
| "plugboardSwap c ((a, b) # pairs) =
     (if c = Some a then Some b
      else if c = Some b then Some a
      else plugboardSwap c pairs)"

section \<open>Rotor\<close>

record rotor =
  wiring :: string
  notch :: char
  ringSetting :: int
  position :: int

text \<open>
  The constructor's parameters \<^verbatim>\<open>ringSetting = 0, position = 0\<close> take their default when
  the argument is \<^verbatim>\<open>undefined\<close>.
\<close>

definition Rotor :: "string \<Rightarrow> char \<Rightarrow> int option \<Rightarrow> int option \<Rightarrow> rotor" where
  "Rotor w n rs p =
     \<lparr>wiring = w, notch = n,
      ringSetting = (case rs of None \<Rightarrow> 0 | Some x \<Rightarrow> x),
      position = (case p of None \<Rightarrow> 0 | Some x \<Rightarrow> x)\<rparr>"

definition step :: "rotor \<Rightarrow> rotor" where
  "step r = r\<lparr>position := mod_js (position r + 1) 26\<rparr>"

definition atNotch :: "rotor \<Rightarrow> bool" where
  "atNotch r = (charAt alphabet (position r) = Some (notch r))"

definition forward :: "rotor \<Rightarrow> jsval \<Rightarrow> jsval" where
  "forward r c =
     (let inputPos = mod_js (indexOf alphabet (toStr c) + position r - ringSetting r) 26;
          outputChar = charAt (wiring r) inputPos;
          outputPos = mod_js (indexOf alphabet (toStr outputChar) - position r + ringSetting r) 26
      in charAt alphabet outputPos)"

definition backward :: "rotor \<Rightarrow> jsval \<Rightarrow> jsval" where
  "backward r c =
     (let inputPos = mod_js (indexOf alphabet (toStr c) + position r - ringSetting r) 26;
          wiringPos = indexOf (wiring r) (toStr (charAt alphabet inputPos));
          outputPos = mod_js (wiringPos - position r + ringSetting r) 26
      in charAt alphabet outputPos)"

section \<open>Machine\<close>

record enigma =
  rotors :: "rotor list"
  plugboardPairs :: "(char \<times> char) list"

text \<open>
  \<^verbatim>\<open>rotorIDs.map((id, i) => new Rotor(ROTORS[id].wiring, ROTORS[id].notch, ringSettings[i],
  rotorPositions[i]))\<close>: reading \<^verbatim>\<open>.wiring\<close> of an \<^verbatim>\<open>undefined\<close> catalog entry throws.
\<close>

fun makeRotors :: "int list \<Rightarrow> int \<Rightarrow> int list \<Rightarrow> int list \<Rightarrow> error + rotor list" where
  "makeRotors [] i rotorPositions ringSettings = Inr []"
| "makeRotors (rid # ids) i rotorPositions ringSettings =
     (case charAt ROTORS rid of
        None \<Rightarrow> Inl TypeError
      | Some (w, n) \<Rightarrow>
          (case makeRotors ids (i + 1) rotorPositions ringSettings of
             Inl err \<Rightarrow> Inl err
           | Inr rs \<Rightarrow>
               Inr (Rotor w n (charAt ringSettings i) (charAt rotorPositions i) # rs)))"

definition Enigma ::
  "int list \<Rightarrow> int list \<Rightarrow> int list \<Rightarrow> (char \<times> char) list \<Rightarrow> error + enigma" where
  "Enigma rotorIDs rotorPositions ringSettings pairs =
     (case makeRotors rotorIDs 0 rotorPositions ringSettings of
        Inl err \<Rightarrow> Inl err
      | Inr rs \<Rightarrow> Inr \<lparr>rotors = rs, plugboardPairs = pairs\<rparr>)"

text \<open>
  \<^verbatim>\<open>stepRotors\<close> reads \<^verbatim>\<open>this.rotors[1]\<close> and \<^verbatim>\<open>this.rotors[2]\<close> before it changes
  anything; with fewer than three rotors one of them is \<^verbatim>\<open>undefined\<close> and the method call
  on it throws.
\<close>

definition stepRotors :: "enigma \<Rightarrow> error + enigma" where
  "stepRotors e =
     (let rs = rotors e in
      if length rs < 3 then Inl TypeError
      else
        let middleAtNotch = atNotch (rs ! 1);
            rs1 = (if atNotch (rs ! 2) then rs[1 := step (rs ! 1)] else rs);
            middleNowAtNotch = atNotch (rs1 ! 1);
            rs2 = (if middleAtNotch \<or> middleNowAtNotch
                   then (rs1[0 := step (rs1 ! 0)])[1 := step (rs1 ! 1)]
                   else rs1)
        in Inr (e\<lparr>rotors := rs2[2 := step (rs2 ! 2)]\<rparr>))"

text \<open>
  The first loop of \<^verbatim>\<open>encryptChar\<close> visits the rotors from the last to the first, the
  second one from the first to the last.
\<close>

definition encryptChar :: "enigma \<Rightarrow> char \<Rightarrow> error + (jsval \<times> enigma)" where
  "encryptChar e c =
     (if \<not> includes_js alphabet [c] then Inr (Some c, e)
      else
        case stepRotors e of
          Inl err \<Rightarrow> Inl err
        | Inr e1 \<Rightarrow>
            let c1 = plugboardSwap (Some c) (plugboardPairs e1);
                c2 = fold forward (rev (rotors e1)) c1;
                c3 = charAt REFLECTOR (indexOf alphabet (toStr c2));
                c4 = fold backward (rotors e1) c3;
                c5 = plugboardSwap c4 (plugboardPairs e1)
            in Inr (c5, e1))"

text \<open>\<^verbatim>\<open>text.split('').map((c) => this.encryptChar(c))\<close>, threading the machine.\<close>

fun encryptChars :: "enigma \<Rightarrow> string \<Rightarrow> error + (jsval list \<times> enigma)" where
  "encryptChars e [] = Inr ([], e)"
| "encryptChars e (c # cs) =
     (case encryptChar e c of
        Inl err \<Rightarrow> Inl err
      | Inr (d, e1) \<Rightarrow>
          (case encryptChars e1 cs of
             Inl err \<Rightarrow> Inl err
           | Inr (ds, e2) \<Rightarrow> Inr (d # ds, e2)))"

text \<open>\<^verbatim>\<open>join('')\<close> writes an \<^verbatim>\<open>undefined\<close> element as the empty string.\<close>

definition join :: "jsval list \<Rightarrow> string" where
  "join ds = concat (map (\<lambda>d. case d of None \<Rightarrow> [] | Some x \<Rightarrow> [x]) ds)"

definition process :: "enigma \<Rightarrow> string \<Rightarrow> error + (string \<times> enigma)" where
  "process e msg =
     (case encryptChars e msg of
        Inl err \<Rightarrow> Inl err
      | Inr (ds, e1) \<Rightarrow> Inr (join ds, e1))"

section \<open>Well-formed plugboards\<close>

text \<open>
  The letters named by a list of plugboard pairs, and the condition that each of them
  appears in at most one pair: no letter of a pair occurs in a later pair.
\<close>

definition plugLetters :: "(char \<times> char) list \<Rightarrow> char list" where
  "plugLetters ps = concat (map (\<lambda>(a, b). [a, b]) ps)"

fun disjointPairs :: "(char \<times> char) list \<Rightarrow> bool" where
  "disjointPairs [] = True"
| "disjointPairs ((a, b) # ps) =
     (a \<notin> set (plugLetters ps) \<and> b \<notin> set (plugLetters ps) \<and> disjointPairs ps)"

section \<open>The stepping rule as the specification words it\<close>

text \<open>
  The specification's stepping controller on the tuple (left, middle, right): record whether
  the middle rotor is at its notch; if the right rotor is at its notch step the middle
  rotor; record whether the middle rotor is at its notch now; if either record holds step
  the left and the middle rotor; step the right rotor.
\<close>

definition steppingSpec :: "rotor \<times> rotor \<times> rotor \<Rightarrow> rotor \<times> rotor \<times> rotor" where
  "steppingSpec lmr =
     (case lmr of (left, middle, right) \<Rightarrow>
        let middle_at_notch_before = atNotch middle;
            middle1 = (if atNotch right then step middle else middle);
            middle_at_notch_after = atNotch middle1
        in if middle_at_notch_before \<or> middle_at_notch_after
           then (step left, step middle1, step right)
           else (left, middle1, step right))"

section \<open>The rotor stack between the two plugboard swaps\<close>

text \<open>
  The part of \<open>encryptChar\<close> between the two calls of \<open>plugboardSwap\<close>: the forward
  loop, the reflector lookup and the backward loop, on a given rotor list.
\<close>

definition rotorCore :: "rotor list \<Rightarrow> jsval \<Rightarrow> jsval" where
  "rotorCore rs v =
     fold backward rs (charAt REFLECTOR (indexOf alphabet (toStr (fold forward (rev rs) v))))"

section \<open>The table reads of one keystroke\<close>

text \<open>
  Every \<^verbatim>\<open>s[i]\<close> on \<open>alphabet\<close>, on a wiring or on \<open>REFLECTOR\<close> that one call of
  \<open>encryptChar\<close> evaluates, in the order of evaluation, as the pair of the length of the
  table read and the index \<open>i\<close>. The index expressions are those of \<open>atNotch\<close>,
  \<open>forward\<close>, \<open>backward\<close> and \<open>encryptChar\<close>. When \<open>stepRotors\<close> throws for lack of
  a rotor, the reads are those made before the throw.
\<close>

type_synonym lookup = "nat \<times> int"

definition atNotchLookups :: "rotor \<Rightarrow> lookup list" where
  "atNotchLookups r = [(length alphabet, position r)]"

definition forwardLookups :: "rotor \<Rightarrow> jsval \<Rightarrow> lookup list" where
  "forwardLookups r c =
     (let inputPos = mod_js (indexOf alphabet (toStr c) + position r - ringSetting r) 26;
          outputChar = charAt (wiring r) inputPos;
          outputPos = mod_js (indexOf alphabet (toStr outputChar) - position r + ringSetting r) 26
      in [(length (wiring r), inputPos), (length alphabet, outputPos)])"

definition backwardLookups :: "rotor \<Rightarrow> jsval \<Rightarrow> lookup list" where
  "backwardLookups r c =
     (let inputPos = mod_js (indexOf alphabet (toStr c) + position r - ringSetting r) 26;
          wiringPos = indexOf (wiring r) (toStr (charAt alphabet inputPos));
          outputPos = mod_js (wiringPos - position r + ringSetting r) 26
      in [(length alphabet, inputPos), (length alphabet, outputPos)])"

fun forwardChainLookups :: "rotor list \<Rightarrow> jsval \<Rightarrow> lookup list" where
  "forwardChainLookups [] c = []"
| "forwardChainLookups (r # rs) c = forwardLookups r c @ forwardChainLookups rs (forward r c)"

fun backwardChainLookups :: "rotor list \<Rightarrow> jsval \<Rightarrow> lookup list" where
  "backwardChainLookups [] c = []"
| "backwardChainLookups (r # rs) c = backwardLookups r c @ backwardChainLookups rs (backward r c)"

definition stepRotorsLookups :: "enigma \<Rightarrow> lookup list" where
  "stepRotorsLookups e =
     (let rs = rotors e in
      if length rs < 2 then []
      else if length rs < 3 then atNotchLookups (rs ! 1)
      else
        let rs1 = (if atNotch (rs ! 2) then rs[1 := step (rs ! 1)] else rs)
        in atNotchLookups (rs ! 1) @ atNotchLookups (rs ! 2) @ atNotchLookups (rs1 ! 1))"

definition encryptCharLookups :: "enigma \<Rightarrow> char \<Rightarrow> lookup list" where
  "encryptCharLookups e c =
     (if \<not> includes_js alphabet [c] then []
      else
        case stepRotors e of
          Inl err \<Rightarrow> stepRotorsLookups e
        | Inr e1 \<Rightarrow>
            let c1 = plugboardSwap (Some c) (plugboardPairs e1);
                c2 = fold forward (rev (rotors e1)) c1
            in stepRotorsLookups e
               @ forwardChainLookups (rev (rotors e1)) c1
               @ [(length REFLECTOR, indexOf alphabet (toStr c2))]
               @ backwardChainLookups (rotors e1)
                   (charAt REFLECTOR (indexOf alphabet (toStr c2))))"

section \<open>Arithmetic modulo 26 and table lookups\<close>

lemma smod_nonneg: "0 \<le> k \<Longrightarrow> k smod 26 = k mod (26::int)"
  by (simp add: signed_modulo_int_def sgn_if)

lemma mod_js_26: "mod_js n 26 = n mod 26"
proof -
  have a: "n smod 26 = n mod 26 - 26 * of_bool (sgn n \<noteq> 1 \<and> \<not> 26 dvd n)"
    by (simp add: signed_modulo_int_eq_modulo_int)
  have b: "0 \<le> n mod 26" "n mod 26 < 26" by simp_all
  have "0 \<le> n smod 26 + 26" using a b by (simp split: if_splits)
  then have "mod_js n 26 = (n smod 26 + 26) mod 26"
    unfolding mod_js_def by (rule smod_nonneg)
  also have "\<dots> = n mod 26" using a by (simp split: if_splits)
  finally show ?thesis .
qed

lemma shift_cancel: "0 \<le> j \<Longrightarrow> j < 26 \<Longrightarrow> ((j - p + g) mod 26 + p - g) mod 26 = (j::int)"
proof -
  assume j: "0 \<le> j" "j < 26"
  have "((j - p + g) mod 26 + p - g) mod 26 = ((j - p + g) mod 26 + (p - g)) mod 26"
    by (simp add: algebra_simps)
  also have "\<dots> = ((j - p + g) + (p - g)) mod 26" by (rule mod_add_left_eq)
  also have "\<dots> = j" using j by simp
  finally show ?thesis .
qed

lemma shift_cancel': "0 \<le> j \<Longrightarrow> j < 26 \<Longrightarrow> ((j + p - g) mod 26 - p + g) mod 26 = (j::int)"
  using shift_cancel [of j "- p" "- g"] by simp


lemma indexOfFrom_absent: "c \<notin> set xs \<Longrightarrow> indexOfFrom [c] xs k = - 1"
  by (induction xs arbitrary: k) auto

lemma indexOfFrom_nth:
  "distinct xs \<Longrightarrow> i < length xs \<Longrightarrow> indexOfFrom [xs ! i] xs k = k + int i"
proof (induction xs arbitrary: i k)
  case Nil then show ?case by simp
next
  case (Cons x xs)
  show ?case
  proof (cases i)
    case 0 then show ?thesis by simp
  next
    case (Suc j)
    with Cons.prems have "xs ! j \<noteq> x" by auto
    with Suc Cons show ?thesis by simp
  qed
qed

lemma indexOf_nth: "distinct s \<Longrightarrow> i < length s \<Longrightarrow> indexOf s [s ! i] = int i"
  by (simp add: indexOf_def indexOfFrom_nth)

lemma indexOf_absent: "c \<notin> set s \<Longrightarrow> indexOf s [c] = - 1"
  by (simp add: indexOf_def indexOfFrom_absent)

lemma indexOfFrom_present: "c \<in> set xs \<Longrightarrow> k \<le> indexOfFrom [c] xs k"
proof (induction xs arbitrary: k)
  case Nil then show ?case by simp
next
  case (Cons x xs)
  show ?case
  proof (cases "c = x")
    case True then show ?thesis by simp
  next
    case False
    with Cons.prems have "c \<in> set xs" by simp
    from Cons.IH [OF this, of "k + 1"] False show ?thesis by simp
  qed
qed

lemma includes_js_char: "includes_js s [c] = (c \<in> set s)"
proof (cases "c \<in> set s")
  case False then show ?thesis by (simp add: includes_js_def indexOf_absent)
next
  case True
  from indexOfFrom_present [OF this, of 0] True show ?thesis
    by (simp add: includes_js_def indexOf_def)
qed

lemma length_alphabet: "length alphabet = 26" by (simp add: alphabet_def)
lemma distinct_alphabet: "distinct alphabet" by (simp add: alphabet_def)

lemma indexOf_alphabet_undefined: "indexOf alphabet ''undefined'' = - 1"
  by (simp add: indexOf_def alphabet_def)

lemma letter_nth: "c \<in> set alphabet \<Longrightarrow> \<exists>i<26. c = alphabet ! i"
  by (auto simp: in_set_conv_nth length_alphabet)

lemma indexOf_alphabet_nth: "i < 26 \<Longrightarrow> indexOf alphabet [alphabet ! i] = int i"
  by (simp add: indexOf_nth distinct_alphabet length_alphabet)

lemma charAt_alphabet_mod:
  "charAt alphabet (mod_js x 26) = Some (alphabet ! nat (x mod 26))"
  by (simp add: charAt_def mod_js_26 length_alphabet)

lemma nth_alphabet_mod: "alphabet ! nat (x mod 26) \<in> set alphabet"
  by (rule nth_mem) (simp add: length_alphabet nat_less_iff)

lemma indexOf_alphabet_mod: "indexOf alphabet [alphabet ! nat (x mod 26)] = x mod 26"
  by (simp add: indexOf_alphabet_nth nat_less_iff)

lemma forward_letter: "\<exists>d \<in> set alphabet. forward r v = Some d"
  by (simp add: forward_def Let_def charAt_alphabet_mod nth_alphabet_mod)

lemma backward_letter: "\<exists>d \<in> set alphabet. backward r v = Some d"
  by (simp add: backward_def Let_def charAt_alphabet_mod nth_alphabet_mod)

lemma perm_wiring_length:
  assumes "distinct w" "set w = set alphabet"
  shows "length w = 26"
proof -
  have "length w = card (set w)" using assms(1) by (simp add: distinct_card)
  also have "\<dots> = card (set alphabet)" using assms(2) by simp
  also have "\<dots> = 26" using distinct_alphabet by (simp add: distinct_card length_alphabet)
  finally show ?thesis .
qed

lemma backward_forward:
  assumes d: "distinct (wiring r)" and s: "set (wiring r) = set alphabet"
    and c: "c \<in> set alphabet"
  shows "backward r (forward r (Some c)) = Some c"
proof -
  let ?p = "position r" and ?g = "ringSetting r"
  from c obtain i where i: "i < 26" "c = alphabet ! i" using letter_nth by blast
  have len: "length (wiring r) = 26" using d s by (rule perm_wiring_length)
  define ip where "ip = (int i + ?p - ?g) mod 26"
  have ip: "0 \<le> ip" "ip < 26" by (simp_all add: ip_def)
  define oc where "oc = wiring r ! nat ip"
  have "oc \<in> set (wiring r)" unfolding oc_def using ip len by (simp add: nat_less_iff)
  then have "oc \<in> set alphabet" using s by simp
  then obtain j where j: "j < 26" "oc = alphabet ! j" using letter_nth by blast
  have ch: "charAt (wiring r) ip = Some oc"
    using ip len by (simp add: charAt_def oc_def)
  have f: "forward r (Some c) = Some (alphabet ! nat ((int j - ?p + ?g) mod 26))"
    using i j ch
    by (simp add: forward_def Let_def toStr_def indexOf_alphabet_nth mod_js_26 ip_def [symmetric]
        charAt_alphabet_mod [unfolded mod_js_26])
  have m1: "((int j - ?p + ?g) mod 26 + ?p - ?g) mod 26 = int j"
    using j(1) by (simp add: shift_cancel)
  have m2: "(ip - ?p + ?g) mod 26 = int i"
    using i(1) by (simp add: ip_def shift_cancel')
  have w: "indexOf (wiring r) [oc] = ip"
    unfolding oc_def using indexOf_nth [OF d, of "nat ip"] ip len by (simp add: nat_less_iff)
  have a: "charAt alphabet (int j) = Some oc"
    using j by (simp add: charAt_def length_alphabet)
  have z: "charAt alphabet (int i) = Some c"
    using i by (simp add: charAt_def length_alphabet)
  show ?thesis
    unfolding f backward_def Let_def
    by (simp add: toStr_def indexOf_alphabet_mod mod_js_26 m1 a w m2 z)
qed

lemma forward_backward:
  assumes d: "distinct (wiring r)" and s: "set (wiring r) = set alphabet"
    and c: "c \<in> set alphabet"
  shows "forward r (backward r (Some c)) = Some c"
proof -
  let ?p = "position r" and ?g = "ringSetting r"
  from c obtain i where i: "i < 26" "c = alphabet ! i" using letter_nth by blast
  have len: "length (wiring r) = 26" using d s by (rule perm_wiring_length)
  define ip where "ip = (int i + ?p - ?g) mod 26"
  have ip: "0 \<le> ip" "ip < 26" by (simp_all add: ip_def)
  define x where "x = alphabet ! nat ip"
  have "x \<in> set alphabet" unfolding x_def ip_def by (rule nth_alphabet_mod)
  then have "x \<in> set (wiring r)" using s by simp
  then obtain k where k: "k < 26" "x = wiring r ! k" using len by (auto simp: in_set_conv_nth)
  have wp: "indexOf (wiring r) [x] = int k"
    unfolding k(2) using indexOf_nth [OF d, of k] k(1) len by simp
  have a: "charAt alphabet ip = Some x"
    using ip by (simp add: charAt_def length_alphabet x_def)
  have b: "backward r (Some c) = Some (alphabet ! nat ((int k - ?p + ?g) mod 26))"
    using i a wp
    by (simp add: backward_def Let_def toStr_def indexOf_alphabet_nth mod_js_26 ip_def [symmetric]
        charAt_alphabet_mod [unfolded mod_js_26])
  have m1: "((int k - ?p + ?g) mod 26 + ?p - ?g) mod 26 = int k"
    using k(1) by (simp add: shift_cancel)
  have ix: "indexOf alphabet [x] = ip"
    unfolding x_def ip_def by (rule indexOf_alphabet_mod)
  have m2: "(ip - ?p + ?g) mod 26 = int i"
    using i(1) by (simp add: ip_def shift_cancel')
  have ck: "charAt (wiring r) (int k) = Some x"
    using k len by (simp add: charAt_def)
  have z: "charAt alphabet (int i) = Some c"
    using i by (simp add: charAt_def length_alphabet)
  show ?thesis
    unfolding b forward_def Let_def
    by (simp add: toStr_def indexOf_alphabet_mod mod_js_26 m1 ck ix m2 z)
qed

lemma reflector_letters:
  "\<forall>c \<in> set alphabet. \<exists>d \<in> set alphabet. d \<noteq> c \<and> charAt REFLECTOR (indexOf alphabet [c]) = Some d
     \<and> charAt REFLECTOR (indexOf alphabet [d]) = Some c"
  by code_simp

lemma catalog_perm: "\<forall>(w, n) \<in> set ROTORS. distinct w \<and> set w = set alphabet"
  by code_simp

section \<open>Plugboard lemmas\<close>

lemma plugLetters_Cons: "set (plugLetters ((a, b) # ps)) = {a, b} \<union> set (plugLetters ps)"
  by (simp add: plugLetters_def)

lemma plugboardSwap_range:
  "plugboardSwap c ps = c \<or> (\<exists>x \<in> set (plugLetters ps). plugboardSwap c ps = Some x)"
proof (induction ps)
  case Nil show ?case by simp
next
  case (Cons p ps)
  obtain a b where p: "p = (a, b)" by (cases p)
  from Cons show ?case unfolding p plugLetters_Cons by auto
qed

lemma plugboardSwap_involution:
  "disjointPairs ps \<Longrightarrow> plugboardSwap (plugboardSwap c ps) ps = c"
proof (induction ps)
  case Nil show ?case by simp
next
  case (Cons p ps)
  obtain a b where p: "p = (a, b)" by (cases p)
  from Cons.prems have ab: "a \<notin> set (plugLetters ps)" "b \<notin> set (plugLetters ps)"
    and dp: "disjointPairs ps" by (simp_all add: p)
  show ?case
  proof (cases "c = Some a \<or> c = Some b")
    case True then show ?thesis by (auto simp: p)
  next
    case False
    from plugboardSwap_range [of c ps] False ab
    have "plugboardSwap c ps \<noteq> Some a" "plugboardSwap c ps \<noteq> Some b" by auto
    with False Cons.IH [OF dp] show ?thesis by (simp add: p)
  qed
qed

lemma plugboardSwap_letter:
  "set (plugLetters ps) \<subseteq> set alphabet \<Longrightarrow> c \<in> set alphabet \<Longrightarrow>
     \<exists>d \<in> set alphabet. plugboardSwap (Some c) ps = Some d"
  using plugboardSwap_range [of "Some c" ps] by auto

section \<open>Stepping and the character pipeline\<close>

lemma step_fields [simp]:
  "wiring (step r) = wiring r" "notch (step r) = notch r" "ringSetting (step r) = ringSetting r"
  "position (step r) = (position r + 1) mod 26"
  by (simp_all add: step_def mod_js_26)

lemma stepRotors_three:
  "stepRotors \<lparr>rotors = [l, m, r], plugboardPairs = ps\<rparr> =
     (case steppingSpec (l, m, r) of
        (l', m', r') \<Rightarrow> Inr \<lparr>rotors = [l', m', r'], plugboardPairs = ps\<rparr>)"
  by (simp add: stepRotors_def steppingSpec_def Let_def)

lemma stepRotors_short: "length (rotors e) < 3 \<Longrightarrow> stepRotors e = Inl TypeError"
  by (simp add: stepRotors_def)

lemma map_update_self: "(map f xs)[i := f (xs ! i)] = map f xs"
  by (metis list_update_id map_update)

lemma stepRotors_ok:
  assumes "3 \<le> length (rotors e)"
  shows "\<exists>e'. stepRotors e = Inr e' \<and> plugboardPairs e' = plugboardPairs e
     \<and> length (rotors e') = length (rotors e)
     \<and> map wiring (rotors e') = map wiring (rotors e)
     \<and> rotors e' ! 2 = step (rotors e ! 2)"
  using assms
  by (simp add: stepRotors_def Let_def map_update map_update_self)

lemma encryptChar_nonletter: "c \<notin> set alphabet \<Longrightarrow> encryptChar e c = Inr (Some c, e)"
  by (simp add: encryptChar_def includes_js_char)

lemma encryptChars_nonletters:
  "set msg \<inter> set alphabet = {} \<Longrightarrow> encryptChars e msg = Inr (map Some msg, e)"
  by (induction msg) (simp_all add: encryptChar_nonletter)

lemma join_map_Some: "join (map Some msg) = msg"
  by (induction msg) (simp_all add: join_def)

lemma process_nonletters:
  "set msg \<inter> set alphabet = {} \<Longrightarrow> process e msg = Inr (msg, e)"
  by (simp add: process_def encryptChars_nonletters join_map_Some)

lemma plugboardSwap_Some: "\<exists>y. plugboardSwap (Some x) ps = Some y"
  using plugboardSwap_range [of "Some x" ps] by auto

lemma fold_backward_letter:
  "rs \<noteq> [] \<Longrightarrow> \<exists>d \<in> set alphabet. fold backward rs v = Some d"
proof (cases rs rule: rev_cases)
  case Nil then show "rs \<noteq> [] \<Longrightarrow> ?thesis" by simp
next
  case (snoc ys y)
  then show ?thesis using backward_letter [of y "fold backward ys v"] by simp
qed

lemma encryptChar_letter:
  assumes "3 \<le> length (rotors e)" and "c \<in> set alphabet"
  shows "\<exists>d e'. encryptChar e c = Inr (Some d, e') \<and> stepRotors e = Inr e'"
proof -
  from stepRotors_ok [OF assms(1)] obtain e' where e': "stepRotors e = Inr e'"
    and len: "length (rotors e') = length (rotors e)" by blast
  from len assms(1) have ne: "rotors e' \<noteq> []" by auto
  let ?v = "charAt REFLECTOR (indexOf alphabet
      (toStr (fold forward (rev (rotors e')) (plugboardSwap (Some c) (plugboardPairs e')))))"
  from fold_backward_letter [OF ne, of ?v] obtain x where x: "fold backward (rotors e') ?v = Some x"
    by blast
  from plugboardSwap_Some [of x "plugboardPairs e'"] obtain d
    where d: "plugboardSwap (Some x) (plugboardPairs e') = Some d" by blast
  have "encryptChar e c = Inr (Some d, e')"
    using assms(2) e' x d by (simp add: encryptChar_def includes_js_char Let_def)
  with e' show ?thesis by blast
qed

lemma encryptChar_total:
  assumes "3 \<le> length (rotors e)"
  shows "\<exists>d e'. encryptChar e c = Inr (Some d, e') \<and> length (rotors e') = length (rotors e)"
proof (cases "c \<in> set alphabet")
  case False then show ?thesis by (simp add: encryptChar_nonletter)
next
  case True
  from encryptChar_letter [OF assms True] obtain d e'
    where "encryptChar e c = Inr (Some d, e')" "stepRotors e = Inr e'" by blast
  then show ?thesis using stepRotors_ok [OF assms] by auto
qed

lemma encryptChars_total:
  "3 \<le> length (rotors e) \<Longrightarrow>
     \<exists>out e'. encryptChars e msg = Inr (map Some out, e') \<and> length out = length msg
        \<and> length (rotors e') = length (rotors e)"
proof (induction msg arbitrary: e)
  case Nil then show ?case by simp
next
  case (Cons c cs)
  from encryptChar_total [OF Cons.prems, of c] obtain d e1
    where 1: "encryptChar e c = Inr (Some d, e1)" "length (rotors e1) = length (rotors e)" by blast
  with Cons.prems have "3 \<le> length (rotors e1)" by simp
  from Cons.IH [OF this] obtain out e2
    where 2: "encryptChars e1 cs = Inr (map Some out, e2)" "length out = length cs"
      "length (rotors e2) = length (rotors e1)" by blast
  from 1 2 have "encryptChars e (c # cs) = Inr (map Some (d # out), e2)" by simp
  with 1 2 show ?case by (metis length_Cons)
qed

lemma encryptChars_append:
  "encryptChars e (xs @ ys) =
     (case encryptChars e xs of
        Inl err \<Rightarrow> Inl err
      | Inr (ds, e1) \<Rightarrow>
          (case encryptChars e1 ys of
             Inl err \<Rightarrow> Inl err
           | Inr (ds', e2) \<Rightarrow> Inr (ds @ ds', e2)))"
  by (induction xs arbitrary: e) (auto split: sum.splits)

lemma encryptChars_right_position:
  assumes "3 \<le> length (rotors e)" and "0 \<le> position (rotors e ! 2)"
    and "position (rotors e ! 2) < 26"
    and "encryptChars e msg = Inr (ds, e')"
  shows "position (rotors e' ! 2)
     = (position (rotors e ! 2) + int (length (filter (\<lambda>c. c \<in> set alphabet) msg))) mod 26"
  using assms
proof (induction msg arbitrary: e ds)
  case Nil then show ?case by simp
next
  case (Cons c cs)
  show ?case
  proof (cases "c \<in> set alphabet")
    case False
    with Cons.prems(4) obtain ds' where "encryptChars e cs = Inr (ds', e')"
      by (auto simp: encryptChar_nonletter split: sum.splits)
    from Cons.IH [OF Cons.prems(1-3) this] False show ?thesis by simp
  next
    case True
    from encryptChar_letter [OF Cons.prems(1) True] obtain d e1
      where 1: "encryptChar e c = Inr (Some d, e1)" "stepRotors e = Inr e1" by blast
    from stepRotors_ok [OF Cons.prems(1)] 1(2)
    have 2: "length (rotors e1) = length (rotors e)" "rotors e1 ! 2 = step (rotors e ! 2)" by auto
    from Cons.prems(4) 1(1) obtain ds' where 3: "encryptChars e1 cs = Inr (ds', e')"
      by (auto split: sum.splits)
    have "position (rotors e' ! 2)
       = (position (rotors e1 ! 2) + int (length (filter (\<lambda>c. c \<in> set alphabet) cs))) mod 26"
      using 2 Cons.prems(1) by (intro Cons.IH [OF _ _ _ 3]) simp_all
    also have "\<dots> = (position (rotors e ! 2) + int (length (filter (\<lambda>c. c \<in> set alphabet) (c # cs)))) mod 26"
      using True by (simp add: 2 mod_simps algebra_simps)
    finally show ?thesis .
  qed
qed

section \<open>Construction\<close>

lemma charAt_ROTORS_None: "(charAt ROTORS x = None) = (x < 0 \<or> 2 < x)"
  by (auto simp: charAt_def ROTORS_def)

lemma charAt_ROTORS_Some:
  "0 \<le> x \<Longrightarrow> x \<le> 2 \<Longrightarrow> charAt ROTORS x = Some (ROTORS ! nat x)"
  by (simp add: charAt_def ROTORS_def)

lemma makeRotors_fails_iff:
  "(makeRotors ids i ps rs = Inl TypeError) = (\<exists>x \<in> set ids. x < 0 \<or> 2 < x)"
proof (induction ids arbitrary: i)
  case Nil show ?case by simp
next
  case (Cons x xs)
  show ?case
  proof (cases "charAt ROTORS x")
    case None
    then show ?thesis using charAt_ROTORS_None [of x] by simp
  next
    case (Some wn)
    then have "\<not> (x < 0 \<or> 2 < x)" using charAt_ROTORS_None [of x] by simp
    with Some Cons.IH [of "i + 1"] show ?thesis
      by (cases wn) (auto split: sum.splits)
  qed
qed

lemma makeRotors_ok:
  "\<forall>x \<in> set ids. 0 \<le> x \<and> x \<le> 2 \<Longrightarrow>
     \<exists>rots. makeRotors ids i ps rs = Inr rots \<and> length rots = length ids
       \<and> (\<forall>k<length ids. rots ! k =
             Rotor (fst (ROTORS ! nat (ids ! k))) (snd (ROTORS ! nat (ids ! k)))
               (charAt rs (i + int k)) (charAt ps (i + int k)))"
proof (induction ids arbitrary: i)
  case Nil show ?case by simp
next
  case (Cons x xs)
  from Cons.prems have x: "0 \<le> x" "x \<le> 2" and xs: "\<forall>x \<in> set xs. 0 \<le> x \<and> x \<le> 2" by simp_all
  from Cons.IH [OF xs, of "i + 1"] obtain rots
    where r: "makeRotors xs (i + 1) ps rs = Inr rots" "length rots = length xs"
      "\<forall>k<length xs. rots ! k =
             Rotor (fst (ROTORS ! nat (xs ! k))) (snd (ROTORS ! nat (xs ! k)))
               (charAt rs (i + 1 + int k)) (charAt ps (i + 1 + int k))" by blast
  let ?r = "Rotor (fst (ROTORS ! nat x)) (snd (ROTORS ! nat x)) (charAt rs i) (charAt ps i)"
  have m: "makeRotors (x # xs) i ps rs = Inr (?r # rots)"
    using charAt_ROTORS_Some [OF x] r(1) by (simp add: case_prod_beta)
  have "(?r # rots) ! k =
             Rotor (fst (ROTORS ! nat ((x # xs) ! k))) (snd (ROTORS ! nat ((x # xs) ! k)))
               (charAt rs (i + int k)) (charAt ps (i + int k))" if "k < length (x # xs)" for k
  proof (cases k)
    case 0 then show ?thesis by simp
  next
    case (Suc j)
    with that have "j < length xs" by simp
    with r(3) Suc show ?thesis by (simp add: algebra_simps)
  qed
  with m r(2) show ?case by simp
qed

lemma catalog_wiring:
  "0 \<le> x \<Longrightarrow> x \<le> 2 \<Longrightarrow>
     distinct (fst (ROTORS ! nat x)) \<and> set (fst (ROTORS ! nat x)) = set alphabet"
proof -
  assume "0 \<le> x" "x \<le> 2"
  then have "ROTORS ! nat x \<in> set ROTORS" by (intro nth_mem) (simp add: ROTORS_def)
  with catalog_perm show ?thesis by (auto simp: case_prod_beta)
qed

lemma Enigma_I_II_III:
  "Enigma [0, 1, 2] [p0, p1, p2] rings ps =
     Inr \<lparr>rotors =
            [Rotor ''EKMFLGDQVZNTOWYHXUSPAIBRCJ'' (CHR ''Q'') (charAt rings 0) (Some p0),
             Rotor ''AJDKSIRUXBLHWTMCQGZNPYFVOE'' (CHR ''E'') (charAt rings 1) (Some p1),
             Rotor ''BDFHJLCPRTXVZNYEIWGAKMUSQO'' (CHR ''V'') (charAt rings 2) (Some p2)],
          plugboardPairs = ps\<rparr>"
  by (simp add: Enigma_def charAt_def ROTORS_def)

lemma Rotor_fields [simp]:
  "wiring (Rotor w n g p) = w" "notch (Rotor w n g p) = n"
  "position (Rotor w n g (Some x)) = x"
  by (simp_all add: Rotor_def)

lemma atNotch_iff:
  "atNotch r = (0 \<le> position r \<and> position r < 26 \<and> alphabet ! nat (position r) = notch r)"
  by (auto simp: atNotch_def charAt_def length_alphabet)

section \<open>Frame conditions and the inverse rotor chain\<close>

lemma stepRotors_Inr_length: "stepRotors e = Inr e' \<Longrightarrow> 3 \<le> length (rotors e)"
  by (cases "length (rotors e) < 3") (simp_all add: stepRotors_short)

lemma stepRotors_frame:
  assumes "stepRotors e = Inr e'"
  shows "map wiring (rotors e') = map wiring (rotors e) \<and> plugboardPairs e' = plugboardPairs e"
  using stepRotors_ok [OF stepRotors_Inr_length [OF assms]] assms by auto

lemma encryptChar_frame:
  assumes "encryptChar e c = Inr (d, e')"
  shows "map wiring (rotors e') = map wiring (rotors e) \<and> plugboardPairs e' = plugboardPairs e"
proof (cases "c \<in> set alphabet")
  case False with assms show ?thesis by (simp add: encryptChar_nonletter)
next
  case True
  with assms obtain e1 where "stepRotors e = Inr e1" "e' = e1"
    by (auto simp: encryptChar_def includes_js_char Let_def split: sum.splits)
  then show ?thesis using stepRotors_frame by blast
qed

lemma encryptChars_frame:
  "encryptChars e msg = Inr (ds, e') \<Longrightarrow>
     map wiring (rotors e') = map wiring (rotors e) \<and> plugboardPairs e' = plugboardPairs e"
proof (induction msg arbitrary: e ds)
  case Nil then show ?case by simp
next
  case (Cons c cs)
  from Cons.prems obtain d e1 ds' where 1: "encryptChar e c = Inr (d, e1)"
    and 2: "encryptChars e1 cs = Inr (ds', e')"
    by (auto split: sum.splits)
  from encryptChar_frame [OF 1] Cons.IH [OF 2] show ?case by simp
qed

lemma process_frame:
  assumes "process e msg = Inr (out, e')"
  shows "map wiring (rotors e') = map wiring (rotors e) \<and> plugboardPairs e' = plugboardPairs e"
proof -
  from assms obtain ds where "encryptChars e msg = Inr (ds, e')"
    by (auto simp: process_def split: sum.splits)
  then show ?thesis by (rule encryptChars_frame)
qed

lemma fold_forward_letter:
  "c \<in> set alphabet \<Longrightarrow> \<exists>d \<in> set alphabet. fold forward rs (Some c) = Some d"
proof (induction rs arbitrary: c)
  case Nil then show ?case by simp
next
  case (Cons r rs)
  from forward_letter [of r "Some c"] obtain x where "x \<in> set alphabet" "forward r (Some c) = Some x"
    by blast
  with Cons.IH [of x] show ?case by simp
qed

lemma fold_backward_letter':
  "c \<in> set alphabet \<Longrightarrow> \<exists>d \<in> set alphabet. fold backward rs (Some c) = Some d"
proof (induction rs arbitrary: c)
  case Nil then show ?case by simp
next
  case (Cons r rs)
  from backward_letter [of r "Some c"] obtain x where "x \<in> set alphabet" "backward r (Some c) = Some x"
    by blast
  with Cons.IH [of x] show ?case by simp
qed

lemma chain_backward_forward:
  assumes "\<forall>w \<in> set (map wiring rs). distinct w \<and> set w = set alphabet" and "c \<in> set alphabet"
  shows "fold backward rs (fold forward (rev rs) (Some c)) = Some c"
  using assms
proof (induction rs)
  case Nil then show ?case by simp
next
  case (Cons r rs)
  from Cons.prems have r: "distinct (wiring r)" "set (wiring r) = set alphabet"
    and rs: "\<forall>w \<in> set (map wiring rs). distinct w \<and> set w = set alphabet" by simp_all
  from fold_forward_letter [OF Cons.prems(2), of "rev rs"] obtain x
    where x: "x \<in> set alphabet" "fold forward (rev rs) (Some c) = Some x" by blast
  have "fold backward (r # rs) (fold forward (rev (r # rs)) (Some c))
      = fold backward rs (backward r (forward r (Some x)))" using x by simp
  also have "\<dots> = fold backward rs (Some x)" using backward_forward [OF r x(1)] by simp
  also have "\<dots> = Some c" using Cons.IH [OF rs Cons.prems(2)] x by simp
  finally show ?case .
qed

lemma chain_forward_backward:
  assumes "\<forall>w \<in> set (map wiring rs). distinct w \<and> set w = set alphabet" and "c \<in> set alphabet"
  shows "fold forward (rev rs) (fold backward rs (Some c)) = Some c"
  using assms
proof (induction rs arbitrary: c)
  case Nil then show ?case by simp
next
  case (Cons r rs)
  from Cons.prems have r: "distinct (wiring r)" "set (wiring r) = set alphabet"
    and rs: "\<forall>w \<in> set (map wiring rs). distinct w \<and> set w = set alphabet" by simp_all
  from backward_letter [of r "Some c"] obtain x
    where x: "x \<in> set alphabet" "backward r (Some c) = Some x" by blast
  have "fold forward (rev (r # rs)) (fold backward (r # rs) (Some c))
      = forward r (fold forward (rev rs) (fold backward rs (Some x)))" using x by simp
  also have "\<dots> = forward r (Some x)" using Cons.IH [OF rs x(1)] by simp
  also have "\<dots> = Some c" using forward_backward [OF r Cons.prems(2)] x by simp
  finally show ?case .
qed

lemma rotorCore_letter: "rs \<noteq> [] \<Longrightarrow> \<exists>d \<in> set alphabet. rotorCore rs v = Some d"
  unfolding rotorCore_def by (rule fold_backward_letter)

lemma rotorCore_involution:
  assumes w: "\<forall>w \<in> set (map wiring rs). distinct w \<and> set w = set alphabet"
    and c: "c \<in> set alphabet"
  shows "\<exists>d \<in> set alphabet. rotorCore rs (Some c) = Some d \<and> d \<noteq> c \<and> rotorCore rs (Some d) = Some c"
proof -
  from fold_forward_letter [OF c, of "rev rs"] obtain x
    where x: "x \<in> set alphabet" "fold forward (rev rs) (Some c) = Some x" by blast
  from reflector_letters x(1) obtain y
    where y: "y \<in> set alphabet" "y \<noteq> x" "charAt REFLECTOR (indexOf alphabet [x]) = Some y"
      "charAt REFLECTOR (indexOf alphabet [y]) = Some x" by blast
  from fold_backward_letter' [OF y(1), of rs] obtain d
    where d: "d \<in> set alphabet" "fold backward rs (Some y) = Some d" by blast
  have 1: "rotorCore rs (Some c) = Some d"
    using x y d by (simp add: rotorCore_def toStr_def)
  have fy: "fold forward (rev rs) (Some d) = Some y"
    using chain_forward_backward [OF w y(1)] d by simp
  have "rotorCore rs (Some d) = fold backward rs (Some x)"
    using fy y by (simp add: rotorCore_def toStr_def)
  also have "\<dots> = Some c" using chain_backward_forward [OF w c] x by simp
  finally have 2: "rotorCore rs (Some d) = Some c" .
  have "d \<noteq> c"
  proof
    assume "d = c"
    with fy x y show False by simp
  qed
  with d 1 2 show ?thesis by blast
qed

lemma encryptChar_letter_core:
  assumes "stepRotors e = Inr e'" and "c \<in> set alphabet"
  shows "encryptChar e c =
     Inr (plugboardSwap (rotorCore (rotors e') (plugboardSwap (Some c) (plugboardPairs e)))
            (plugboardPairs e), e')"
  using assms stepRotors_frame [OF assms(1)]
  by (simp add: encryptChar_def includes_js_char Let_def rotorCore_def)

lemma encryptChar_reciprocal:
  assumes len: "3 \<le> length (rotors e)"
    and w: "\<forall>w \<in> set (map wiring (rotors e)). distinct w \<and> set w = set alphabet"
    and dp: "disjointPairs (plugboardPairs e)"
    and pl: "set (plugLetters (plugboardPairs e)) \<subseteq> set alphabet"
    and c: "c \<in> set alphabet"
  shows "\<exists>d \<in> set alphabet. \<exists>e'. encryptChar e c = Inr (Some d, e')
     \<and> encryptChar e d = Inr (Some c, e')"
proof -
  let ?P = "plugboardPairs e"
  from stepRotors_ok [OF len] obtain e' where s: "stepRotors e = Inr e'" by blast
  from stepRotors_frame [OF s] w
  have w': "\<forall>w \<in> set (map wiring (rotors e')). distinct w \<and> set w = set alphabet" by simp
  from plugboardSwap_letter [OF pl c] obtain c1
    where c1: "c1 \<in> set alphabet" "plugboardSwap (Some c) ?P = Some c1" by blast
  from rotorCore_involution [OF w' c1(1)] obtain x
    where x: "x \<in> set alphabet" "rotorCore (rotors e') (Some c1) = Some x"
      "rotorCore (rotors e') (Some x) = Some c1" by blast
  from plugboardSwap_letter [OF pl x(1)] obtain d
    where d: "d \<in> set alphabet" "plugboardSwap (Some x) ?P = Some d" by blast
  have 1: "encryptChar e c = Inr (Some d, e')"
    using encryptChar_letter_core [OF s c] c1 x d by simp
  have dx: "plugboardSwap (Some d) ?P = Some x"
    using plugboardSwap_involution [OF dp, of "Some x"] d by simp
  have c1c: "plugboardSwap (Some c1) ?P = Some c"
    using plugboardSwap_involution [OF dp, of "Some c"] c1 by simp
  have 2: "encryptChar e d = Inr (Some c, e')"
    using encryptChar_letter_core [OF s d(1)] dx x c1c by simp
  from d(1) 1 2 show ?thesis by blast
qed

lemma encryptChars_reciprocal:
  assumes "3 \<le> length (rotors e)"
    and "\<forall>w \<in> set (map wiring (rotors e)). distinct w \<and> set w = set alphabet"
    and "disjointPairs (plugboardPairs e)"
    and "set (plugLetters (plugboardPairs e)) \<subseteq> set alphabet"
    and "set m \<subseteq> set alphabet"
  shows "\<exists>c e'. set c \<subseteq> set alphabet \<and> encryptChars e m = Inr (map Some c, e')
     \<and> encryptChars e c = Inr (map Some m, e')"
  using assms
proof (induction m arbitrary: e)
  case Nil
  have "set [] \<subseteq> set alphabet \<and> encryptChars e [] = Inr (map Some [], e)
     \<and> encryptChars e [] = Inr (map Some [], e)" by simp
  then show ?case by blast
next
  case (Cons x xs)
  from Cons.prems(5) have x: "x \<in> set alphabet" and xs: "set xs \<subseteq> set alphabet" by simp_all
  from encryptChar_reciprocal [OF Cons.prems(1-4) x] obtain d e1
    where d: "d \<in> set alphabet" "encryptChar e x = Inr (Some d, e1)"
      "encryptChar e d = Inr (Some x, e1)" by blast
  from encryptChar_frame [OF d(2)]
  have f: "map wiring (rotors e1) = map wiring (rotors e)" "plugboardPairs e1 = plugboardPairs e"
    by simp_all
  from f(1) have "length (rotors e1) = length (rotors e)" by (metis length_map)
  with Cons.prems(1) have l1: "3 \<le> length (rotors e1)" by simp
  from Cons.IH [OF l1 _ _ _ xs] Cons.prems(2-4) f obtain c e'
    where c: "set c \<subseteq> set alphabet" "encryptChars e1 xs = Inr (map Some c, e')"
      "encryptChars e1 c = Inr (map Some xs, e')" by auto
  have "set (d # c) \<subseteq> set alphabet \<and> encryptChars e (x # xs) = Inr (map Some (d # c), e')
     \<and> encryptChars e (d # c) = Inr (map Some (x # xs), e')"
    using d c by simp
  then show ?case by blast
qed

lemma Enigma_three_catalog:
  assumes "length ids = 3" and "\<forall>x \<in> set ids. 0 \<le> x \<and> x \<le> 2"
  shows "\<exists>e. Enigma ids ps rs pairs = Inr e \<and> plugboardPairs e = pairs
     \<and> length (rotors e) = 3
     \<and> (\<forall>w \<in> set (map wiring (rotors e)). distinct w \<and> set w = set alphabet)"
proof -
  from makeRotors_ok [OF assms(2), of 0 ps rs] obtain rots
    where r: "makeRotors ids 0 ps rs = Inr rots" "length rots = length ids"
      "\<forall>k<length ids. rots ! k =
             Rotor (fst (ROTORS ! nat (ids ! k))) (snd (ROTORS ! nat (ids ! k)))
               (charAt rs (0 + int k)) (charAt ps (0 + int k))" by blast
  have "distinct (wiring x) \<and> set (wiring x) = set alphabet" if "x \<in> set rots" for x
  proof -
    from that r(2) obtain k where k: "k < length ids" "x = rots ! k"
      by (auto simp: in_set_conv_nth)
    from k(1) assms(2) have "0 \<le> ids ! k" "ids ! k \<le> 2" by simp_all
    from catalog_wiring [OF this] r(3) k show ?thesis by simp
  qed
  with r assms(1) show ?thesis by (simp add: Enigma_def)
qed

section \<open>Ranges of the table reads\<close>

lemma mod_js_range: "0 \<le> mod_js x 26 \<and> mod_js x 26 < 26"
  by (simp add: mod_js_26)

lemma forwardLookups_range:
  "length (wiring r) = 26 \<Longrightarrow> \<forall>(n, i) \<in> set (forwardLookups r c). 0 \<le> i \<and> i < int n"
  using mod_js_range by (simp add: forwardLookups_def Let_def length_alphabet)

lemma backwardLookups_range:
  "\<forall>(n, i) \<in> set (backwardLookups r c). 0 \<le> i \<and> i < int n"
  using mod_js_range by (simp add: backwardLookups_def Let_def length_alphabet)

lemma forwardChainLookups_range:
  "\<forall>r \<in> set rs. length (wiring r) = 26 \<Longrightarrow>
     \<forall>(n, i) \<in> set (forwardChainLookups rs c). 0 \<le> i \<and> i < int n"
proof (induction rs arbitrary: c)
  case Nil show ?case by simp
next
  case (Cons r rs)
  from Cons.prems have "length (wiring r) = 26" "\<forall>r \<in> set rs. length (wiring r) = 26" by simp_all
  from forwardLookups_range [OF this(1), of c] Cons.IH [OF this(2), of "forward r c"]
  show ?case by auto
qed

lemma backwardChainLookups_range:
  "\<forall>(n, i) \<in> set (backwardChainLookups rs c). 0 \<le> i \<and> i < int n"
proof (induction rs arbitrary: c)
  case Nil show ?case by simp
next
  case (Cons r rs)
  from backwardLookups_range [of r c] Cons.IH [of "backward r c"]
  show ?case by auto
qed

lemma step_position_range: "0 \<le> position (step r) \<and> position (step r) < 26"
  by simp

lemma stepRotorsLookups_range:
  assumes "\<forall>r \<in> set (rotors e). 0 \<le> position r \<and> position r < 26"
  shows "\<forall>(n, i) \<in> set (stepRotorsLookups e). 0 \<le> i \<and> i < int n"
proof -
  have p: "0 \<le> position (rotors e ! k) \<and> position (rotors e ! k) < 26"
    if "k < length (rotors e)" for k
    using assms that by simp
  show ?thesis
    using p [of 1] p [of 2]
    by (simp add: stepRotorsLookups_def Let_def atNotchLookups_def length_alphabet)
qed

lemma positions_update:
  "\<forall>r \<in> set rs. 0 \<le> position r \<and> position r < 26 \<Longrightarrow>
     \<forall>r \<in> set (rs[k := step x]). 0 \<le> position r \<and> position r < 26"
proof
  fix r assume a: "\<forall>r \<in> set rs. 0 \<le> position r \<and> position r < 26" and "r \<in> set (rs[k := step x])"
  then have "r = step x \<or> r \<in> set rs" using set_update_subset_insert [of rs k "step x"] by auto
  with a show "0 \<le> position r \<and> position r < 26" using step_position_range by auto
qed

lemma stepRotors_positions:
  assumes "stepRotors e = Inr e'" and "\<forall>r \<in> set (rotors e). 0 \<le> position r \<and> position r < 26"
  shows "\<forall>r \<in> set (rotors e'). 0 \<le> position r \<and> position r < 26"
proof -
  let ?ok = "\<lambda>rs. \<forall>r \<in> set rs. 0 \<le> position r \<and> position r < 26"
  let ?rs = "rotors e"
  define rs1 where "rs1 = (if atNotch (?rs ! 2) then ?rs[1 := step (?rs ! 1)] else ?rs)"
  define rs2 where "rs2 = (if atNotch (?rs ! 1) \<or> atNotch (rs1 ! 1)
                   then (rs1[0 := step (rs1 ! 0)])[1 := step (rs1 ! 1)]
                   else rs1)"
  from stepRotors_Inr_length [OF assms(1)] have "\<not> length ?rs < 3" by simp
  with assms(1) have e': "rotors e' = rs2[2 := step (rs2 ! 2)]"
    by (auto simp: stepRotors_def Let_def rs1_def rs2_def)
  have 1: "?ok rs1" unfolding rs1_def using assms(2) positions_update [of ?rs] by simp
  have "?ok (rs1[0 := step (rs1 ! 0)])" using 1 by (rule positions_update)
  then have "?ok ((rs1[0 := step (rs1 ! 0)])[1 := step (rs1 ! 1)])" by (rule positions_update)
  with 1 have 2: "?ok rs2" unfolding rs2_def by simp
  show ?thesis unfolding e' using 2 by (rule positions_update)
qed

lemma encryptChar_positions:
  assumes "encryptChar e c = Inr (d, e')"
    and "\<forall>r \<in> set (rotors e). 0 \<le> position r \<and> position r < 26"
  shows "\<forall>r \<in> set (rotors e'). 0 \<le> position r \<and> position r < 26"
proof (cases "c \<in> set alphabet")
  case False with assms show ?thesis by (simp add: encryptChar_nonletter)
next
  case True
  with assms(1) obtain e1 where "stepRotors e = Inr e1" "e' = e1"
    by (auto simp: encryptChar_def includes_js_char Let_def split: sum.splits)
  with stepRotors_positions [OF _ assms(2)] show ?thesis by blast
qed

lemma encryptChars_positions:
  "encryptChars e msg = Inr (ds, e') \<Longrightarrow>
   \<forall>r \<in> set (rotors e). 0 \<le> position r \<and> position r < 26 \<Longrightarrow>
   \<forall>r \<in> set (rotors e'). 0 \<le> position r \<and> position r < 26"
proof (induction msg arbitrary: e ds)
  case Nil then show ?case by simp
next
  case (Cons c cs)
  from Cons.prems(1) obtain d e1 ds' where 1: "encryptChar e c = Inr (d, e1)"
    and 2: "encryptChars e1 cs = Inr (ds', e')"
    by (auto split: sum.splits)
  from encryptChar_positions [OF 1 Cons.prems(2)] Cons.IH [OF 2] show ?case by blast
qed

lemma process_positions:
  assumes "process e msg = Inr (out, e')"
    and "\<forall>r \<in> set (rotors e). 0 \<le> position r \<and> position r < 26"
  shows "\<forall>r \<in> set (rotors e'). 0 \<le> position r \<and> position r < 26"
proof -
  from assms(1) obtain ds where "encryptChars e msg = Inr (ds, e')"
    by (auto simp: process_def split: sum.splits)
  from encryptChars_positions [OF this assms(2)] show ?thesis .
qed

lemma charAt_range:
  "\<forall>p \<in> set ps. 0 \<le> p \<and> p \<le> 25 \<Longrightarrow>
     0 \<le> (case charAt ps k of None \<Rightarrow> 0 | Some x \<Rightarrow> x)
     \<and> (case charAt ps k of None \<Rightarrow> 0 | Some x \<Rightarrow> x) < (26::int)"
  by (auto simp: charAt_def nat_less_iff dest!: bspec [where x = "ps ! nat k"])

lemma Enigma_positions:
  assumes "\<forall>x \<in> set ids. 0 \<le> x \<and> x \<le> 2" and "\<forall>p \<in> set ps. 0 \<le> p \<and> p \<le> 25"
    and "Enigma ids ps rs pairs = Inr e"
  shows "\<forall>r \<in> set (rotors e). 0 \<le> position r \<and> position r < 26"
proof -
  from makeRotors_ok [OF assms(1), of 0 ps rs] obtain rots
    where r: "makeRotors ids 0 ps rs = Inr rots" "length rots = length ids"
      "\<forall>k<length ids. rots ! k =
             Rotor (fst (ROTORS ! nat (ids ! k))) (snd (ROTORS ! nat (ids ! k)))
               (charAt rs (0 + int k)) (charAt ps (0 + int k))" by blast
  from r(1) assms(3) have e: "rotors e = rots" by (auto simp: Enigma_def)
  have "0 \<le> position x \<and> position x < 26" if "x \<in> set rots" for x
  proof -
    from that r(2) obtain k where k: "k < length ids" "x = rots ! k"
      by (auto simp: in_set_conv_nth)
    with r(3) have "position x = (case charAt ps (int k) of None \<Rightarrow> 0 | Some y \<Rightarrow> y)"
      by (simp add: Rotor_def)
    with charAt_range [OF assms(2), of "int k"] show ?thesis by simp
  qed
  with e show ?thesis by simp
qed

section \<open>Stepping order and the double step\<close>

text \<open>
  Claim C2. On a machine with rotors (left, middle, right), one call of \<open>stepRotors\<close>
  does what the specification's stepping rule says, in its order: the middle rotor steps if
  the right rotor is at its notch; then, if the middle rotor was at its notch before that
  step or is at its notch after it, the left and the middle rotor step; then the right rotor
  steps. With rotors I, II, III at positions (0, 3, 21), whatever the ring settings and the
  plugboard, the right rotor is at its notch, the middle rotor goes from 3 to 4, which is its
  notch, and encrypting one letter leaves the positions (1, 5, 22).
\<close>

theorem stepRotors_double_stepping:
  "stepRotors \<lparr>rotors = [l, m, r], plugboardPairs = ps\<rparr> =
     (case steppingSpec (l, m, r) of
        (l', m', r') \<Rightarrow> Inr \<lparr>rotors = [l', m', r'], plugboardPairs = ps\<rparr>)
   \<and> (\<forall>c \<in> set alphabet. \<exists>e d e'.
         Enigma [0, 1, 2] [0, 3, 21] rings ps = Inr e
         \<and> map position (rotors e) = [0, 3, 21]
         \<and> atNotch (rotors e ! 2) \<and> \<not> atNotch (rotors e ! 1)
         \<and> position (step (rotors e ! 1)) = 4 \<and> atNotch (step (rotors e ! 1))
         \<and> encryptChar e c = Inr (d, e')
         \<and> map position (rotors e') = [1, 5, 22])"
proof (intro conjI ballI)
  show "stepRotors \<lparr>rotors = [l, m, r], plugboardPairs = ps\<rparr> =
     (case steppingSpec (l, m, r) of
        (l', m', r') \<Rightarrow> Inr \<lparr>rotors = [l', m', r'], plugboardPairs = ps\<rparr>)"
    by (rule stepRotors_three)
next
  fix c assume c: "c \<in> set alphabet"
  let ?l = "Rotor ''EKMFLGDQVZNTOWYHXUSPAIBRCJ'' (CHR ''Q'') (charAt rings 0) (Some 0)"
  let ?m = "Rotor ''AJDKSIRUXBLHWTMCQGZNPYFVOE'' (CHR ''E'') (charAt rings 1) (Some 3)"
  let ?r = "Rotor ''BDFHJLCPRTXVZNYEIWGAKMUSQO'' (CHR ''V'') (charAt rings 2) (Some 21)"
  let ?e = "\<lparr>rotors = [?l, ?m, ?r], plugboardPairs = ps\<rparr>"
  have e: "Enigma [0, 1, 2] [0, 3, 21] rings ps = Inr ?e" by (rule Enigma_I_II_III)
  have n: "atNotch ?r" "\<not> atNotch ?m" "atNotch (step ?m)" "position (step ?m) = 4"
    by (simp_all add: atNotch_iff alphabet_def)
  have s: "stepRotors ?e = Inr \<lparr>rotors = [step ?l, step (step ?m), step ?r], plugboardPairs = ps\<rparr>"
    using n by (simp add: stepRotors_three steppingSpec_def)
  from encryptChar_letter [of ?e c] c obtain d e'
    where d: "encryptChar ?e c = Inr (Some d, e')" "stepRotors ?e = Inr e'" by auto
  from d(2) s have "map position (rotors e') = [1, 5, 22]" by auto
  with e n d(1) show "\<exists>e d e'.
         Enigma [0, 1, 2] [0, 3, 21] rings ps = Inr e
         \<and> map position (rotors e) = [0, 3, 21]
         \<and> atNotch (rotors e ! 2) \<and> \<not> atNotch (rotors e ! 1)
         \<and> position (step (rotors e ! 1)) = 4 \<and> atNotch (step (rotors e ! 1))
         \<and> encryptChar e c = Inr (d, e')
         \<and> map position (rotors e') = [1, 5, 22]"
    by simp
qed

theorem stepRotors_double_stepping_witness:
  "CHR ''A'' \<in> set alphabet
   \<and> (\<exists>e d e'. Enigma [0, 1, 2] [0, 3, 21] [0, 0, 0] [] = Inr e
         \<and> map position (rotors e) = [0, 3, 21]
         \<and> atNotch (rotors e ! 2) \<and> \<not> atNotch (rotors e ! 1)
         \<and> position (step (rotors e ! 1)) = 4 \<and> atNotch (step (rotors e ! 1))
         \<and> encryptChar e (CHR ''A'') = Inr (d, e')
         \<and> map position (rotors e') = [1, 5, 22])"
proof -
  have h: "CHR ''A'' \<in> set alphabet" by (simp add: alphabet_def)
  note w = stepRotors_double_stepping [where rings = "[0, 0, 0]" and ps = "[]", THEN conjunct2,
      THEN bspec, OF h]
  show ?thesis by (rule conjI [OF h w])
qed

section \<open>Characters outside the alphabet\<close>

text \<open>
  Claim C3. For every character \<open>c\<close> that is not one of \<open>A\<close>..\<open>Z\<close> and every machine
  (whatever its rotors), \<open>encryptChar\<close> returns \<open>c\<close> and the machine unchanged; a message
  made of such characters, such as \<open>123!@#\<close> or a lowercase text, is returned as it is and
  leaves the machine unchanged.
\<close>

theorem nonalphabetic_noop:
  assumes "c \<notin> set alphabet" and "set msg \<inter> set alphabet = {}"
  shows "encryptChar e c = Inr (Some c, e)
     \<and> process e msg = Inr (msg, e)
     \<and> process e ''123!@#'' = Inr (''123!@#'', e)
     \<and> process e ''hello world'' = Inr (''hello world'', e)"
proof -
  have "set ''123!@#'' \<inter> set alphabet = {}" by (simp add: alphabet_def)
  moreover have "set ''hello world'' \<inter> set alphabet = {}" by (simp add: alphabet_def)
  ultimately show ?thesis using assms
    by (simp add: encryptChar_nonletter process_nonletters)
qed


theorem nonalphabetic_noop_witness:
  "CHR ''a'' \<notin> set alphabet \<and> set ''x 9'' \<inter> set alphabet = {}
   \<and> encryptChar \<lparr>rotors = [], plugboardPairs = []\<rparr> (CHR ''a'')
       = Inr (Some (CHR ''a''), \<lparr>rotors = [], plugboardPairs = []\<rparr>)
   \<and> process \<lparr>rotors = [], plugboardPairs = []\<rparr> ''x 9''
       = Inr (''x 9'', \<lparr>rotors = [], plugboardPairs = []\<rparr>)"
proof -
  have h1: "CHR ''a'' \<notin> set alphabet" by (simp add: alphabet_def)
  have h2: "set ''x 9'' \<inter> set alphabet = {}" by (simp add: alphabet_def)
  from nonalphabetic_noop [OF h1 h2, of "\<lparr>rotors = [], plugboardPairs = []\<rparr>"] h1 h2
  show ?thesis by blast
qed

section \<open>Construction does not validate the configuration\<close>

text \<open>
  Claim C4 says that construction fails on a wrong rotor count, on a ring setting or a
  position outside \<open>[0, 25]\<close>, on a wiring that is no permutation and on an unknown rotor
  identifier. The constructor has no validation: a machine with two rotors and a machine
  with position 26 and ring settings \<open>-1\<close> and 99 are constructed.
\<close>

theorem Enigma_accepts_malformed_counterexample:
  "Enigma [0, 1] [0, 0] [0, 0] [] =
     Inr \<lparr>rotors =
            [\<lparr>wiring = ''EKMFLGDQVZNTOWYHXUSPAIBRCJ'', notch = CHR ''Q'', ringSetting = 0, position = 0\<rparr>,
             \<lparr>wiring = ''AJDKSIRUXBLHWTMCQGZNPYFVOE'', notch = CHR ''E'', ringSetting = 0, position = 0\<rparr>],
          plugboardPairs = []\<rparr>
   \<and> Enigma [2, 2, 2] [0, 0, 26] [0, - 1, 99] [] =
     Inr \<lparr>rotors =
            [\<lparr>wiring = ''BDFHJLCPRTXVZNYEIWGAKMUSQO'', notch = CHR ''V'', ringSetting = 0, position = 0\<rparr>,
             \<lparr>wiring = ''BDFHJLCPRTXVZNYEIWGAKMUSQO'', notch = CHR ''V'', ringSetting = - 1, position = 0\<rparr>,
             \<lparr>wiring = ''BDFHJLCPRTXVZNYEIWGAKMUSQO'', notch = CHR ''V'', ringSetting = 99, position = 26\<rparr>],
          plugboardPairs = []\<rparr>"
  by (simp add: Enigma_def charAt_def ROTORS_def Rotor_def)

text \<open>
  Claim C4, amended. Construction fails, with a \<open>TypeError\<close> and without a machine,
  exactly when a rotor identifier is outside the catalog (not 0, 1 or 2). For identifiers of
  the catalog, whatever their number and whatever the positions and ring settings, the
  constructor returns a machine with one rotor per identifier, holding the catalog's wiring
  (a permutation of the alphabet) and notch, and the given ring setting and position (0
  where the list has none at that index).
\<close>

theorem Enigma_fails_iff_unknown_rotor:
  "(Enigma ids ps rs pairs = Inl TypeError) = (\<exists>x \<in> set ids. x < 0 \<or> 2 < x)
   \<and> ((\<forall>x \<in> set ids. 0 \<le> x \<and> x \<le> 2) \<longrightarrow>
        (\<exists>e. Enigma ids ps rs pairs = Inr e \<and> plugboardPairs e = pairs
           \<and> length (rotors e) = length ids
           \<and> (\<forall>k<length ids.
                 rotors e ! k =
                   Rotor (fst (ROTORS ! nat (ids ! k))) (snd (ROTORS ! nat (ids ! k)))
                     (charAt rs (int k)) (charAt ps (int k))
                 \<and> distinct (wiring (rotors e ! k))
                 \<and> set (wiring (rotors e ! k)) = set alphabet)))"
proof (intro conjI impI)
  show "(Enigma ids ps rs pairs = Inl TypeError) = (\<exists>x \<in> set ids. x < 0 \<or> 2 < x)"
    using makeRotors_fails_iff [of ids 0 ps rs]
    by (cases "makeRotors ids 0 ps rs") (auto simp: Enigma_def)
next
  assume ok: "\<forall>x \<in> set ids. 0 \<le> x \<and> x \<le> 2"
  from makeRotors_ok [OF ok, of 0 ps rs] obtain rots
    where r: "makeRotors ids 0 ps rs = Inr rots" "length rots = length ids"
      "\<forall>k<length ids. rots ! k =
             Rotor (fst (ROTORS ! nat (ids ! k))) (snd (ROTORS ! nat (ids ! k)))
               (charAt rs (0 + int k)) (charAt ps (0 + int k))" by blast
  have "distinct (wiring (rots ! k)) \<and> set (wiring (rots ! k)) = set alphabet"
    if k: "k < length ids" for k
  proof -
    from k ok have "0 \<le> ids ! k" "ids ! k \<le> 2" by simp_all
    from catalog_wiring [OF this] r(3) k show ?thesis by (simp add: Rotor_def)
  qed
  with r show "\<exists>e. Enigma ids ps rs pairs = Inr e \<and> plugboardPairs e = pairs
           \<and> length (rotors e) = length ids
           \<and> (\<forall>k<length ids.
                 rotors e ! k =
                   Rotor (fst (ROTORS ! nat (ids ! k))) (snd (ROTORS ! nat (ids ! k)))
                     (charAt rs (int k)) (charAt ps (int k))
                 \<and> distinct (wiring (rotors e ! k))
                 \<and> set (wiring (rotors e ! k)) = set alphabet)"
    by (simp add: Enigma_def)
qed

theorem Enigma_fails_iff_unknown_rotor_witness:
  "Enigma [0, 1, 3] [0, 0, 0] [0, 0, 0] [] = Inl TypeError
   \<and> Enigma [0, 1, 2] [5, 10, 15] [3, 7, 11] [] \<noteq> Inl TypeError
   \<and> (\<exists>e. Enigma [0, 1, 2] [5, 10, 15] [3, 7, 11] [] = Inr e \<and> length (rotors e) = 3)"
proof -
  have h: "\<forall>x \<in> set [0, 1, 2 :: int]. 0 \<le> x \<and> x \<le> 2" by simp
  have b: "\<exists>x \<in> set [0, 1, 3 :: int]. x < 0 \<or> 2 < x" by simp
  from Enigma_fails_iff_unknown_rotor [of "[0, 1, 3]" "[0, 0, 0]" "[0, 0, 0]" "[]"] b
  have 1: "Enigma [0, 1, 3] [0, 0, 0] [0, 0, 0] [] = Inl TypeError" by blast
  from Enigma_fails_iff_unknown_rotor [of "[0, 1, 2]" "[5, 10, 15]" "[3, 7, 11]" "[]"] h
  have 2: "Enigma [0, 1, 2] [5, 10, 15] [3, 7, 11] [] \<noteq> Inl TypeError"
    "\<exists>e. Enigma [0, 1, 2] [5, 10, 15] [3, 7, 11] [] = Inr e \<and> length (rotors e) = 3"
    by auto
  from 1 2 show ?thesis by blast
qed

section \<open>Rotor: forward and backward are inverse\<close>

text \<open>
  Claim C5. For a rotor whose wiring is a permutation of the alphabet and for every letter
  \<open>c\<close> of \<open>A\<close>..\<open>Z\<close>, \<open>backward (forward c) = c\<close> and \<open>forward (backward c) = c\<close>
  at a fixed position and ring setting. The proof needs no bound on position and
  ring setting: it holds for every integer, so in particular for those in \<open>[0, 25]\<close>.
\<close>

theorem rotor_forward_backward_inverse:
  assumes "distinct (wiring r)" and "set (wiring r) = set alphabet" and "c \<in> set alphabet"
  shows "backward r (forward r (Some c)) = Some c \<and> forward r (backward r (Some c)) = Some c"
  using assms by (simp add: backward_forward forward_backward)

theorem rotor_forward_backward_inverse_witness:
  "distinct (wiring (Rotor ''EKMFLGDQVZNTOWYHXUSPAIBRCJ'' (CHR ''Q'') (Some 3) (Some 5)))
   \<and> set (wiring (Rotor ''EKMFLGDQVZNTOWYHXUSPAIBRCJ'' (CHR ''Q'') (Some 3) (Some 5))) = set alphabet
   \<and> CHR ''G'' \<in> set alphabet
   \<and> backward (Rotor ''EKMFLGDQVZNTOWYHXUSPAIBRCJ'' (CHR ''Q'') (Some 3) (Some 5))
        (forward (Rotor ''EKMFLGDQVZNTOWYHXUSPAIBRCJ'' (CHR ''Q'') (Some 3) (Some 5))
           (Some (CHR ''G''))) = Some (CHR ''G'')
   \<and> forward (Rotor ''EKMFLGDQVZNTOWYHXUSPAIBRCJ'' (CHR ''Q'') (Some 3) (Some 5))
        (backward (Rotor ''EKMFLGDQVZNTOWYHXUSPAIBRCJ'' (CHR ''Q'') (Some 3) (Some 5))
           (Some (CHR ''G''))) = Some (CHR ''G'')"
proof -
  let ?r = "Rotor ''EKMFLGDQVZNTOWYHXUSPAIBRCJ'' (CHR ''Q'') (Some 3) (Some 5)"
  have h1: "distinct (wiring ?r)" by (simp add: Rotor_def)
  have h2: "set (wiring ?r) = set alphabet"
    using catalog_perm by (simp add: Rotor_def ROTORS_def)
  have h3: "CHR ''G'' \<in> set alphabet" by (simp add: alphabet_def)
  from rotor_forward_backward_inverse [OF h1 h2 h3] h1 h2 h3 show ?thesis by blast
qed

section \<open>Plugboard: the swap is an involution\<close>

text \<open>
  Claim C6. For every list of plugboard pairs in which each letter appears in at most one
  pair and for every character \<open>c\<close> (also \<^verbatim>\<open>undefined\<close>), swapping twice gives \<open>c\<close> back,
  and the swap is symmetric: when it maps \<open>a\<close> to \<open>b\<close> it maps \<open>b\<close> to \<open>a\<close>.
\<close>

theorem plugboardSwap_involutive_symmetric:
  assumes "disjointPairs pairs"
  shows "plugboardSwap (plugboardSwap c pairs) pairs = c
    \<and> (plugboardSwap (Some a) pairs = Some b \<longrightarrow> plugboardSwap (Some b) pairs = Some a)"
proof
  show "plugboardSwap (plugboardSwap c pairs) pairs = c"
    using assms by (rule plugboardSwap_involution)
  show "plugboardSwap (Some a) pairs = Some b \<longrightarrow> plugboardSwap (Some b) pairs = Some a"
  proof
    assume "plugboardSwap (Some a) pairs = Some b"
    then have "plugboardSwap (Some b) pairs = plugboardSwap (plugboardSwap (Some a) pairs) pairs"
      by simp
    also have "\<dots> = Some a" using assms by (rule plugboardSwap_involution)
    finally show "plugboardSwap (Some b) pairs = Some a" .
  qed
qed

theorem plugboardSwap_involutive_symmetric_witness:
  "disjointPairs [(CHR ''A'', CHR ''B''), (CHR ''C'', CHR ''D'')]
   \<and> plugboardSwap (Some (CHR ''A'')) [(CHR ''A'', CHR ''B''), (CHR ''C'', CHR ''D'')] = Some (CHR ''B'')
   \<and> plugboardSwap (Some (CHR ''B'')) [(CHR ''A'', CHR ''B''), (CHR ''C'', CHR ''D'')] = Some (CHR ''A'')
   \<and> plugboardSwap (plugboardSwap (Some (CHR ''D'')) [(CHR ''A'', CHR ''B''), (CHR ''C'', CHR ''D'')])
        [(CHR ''A'', CHR ''B''), (CHR ''C'', CHR ''D'')] = Some (CHR ''D'')"
proof -
  have h: "disjointPairs [(CHR ''A'', CHR ''B''), (CHR ''C'', CHR ''D'')]"
    by (simp add: plugLetters_def)
  have s: "plugboardSwap (Some (CHR ''A'')) [(CHR ''A'', CHR ''B''), (CHR ''C'', CHR ''D'')] = Some (CHR ''B'')"
    by simp
  from plugboardSwap_involutive_symmetric [OF h, of "Some (CHR ''D'')" "CHR ''A''" "CHR ''B''"] h s
  show ?thesis by blast
qed

section \<open>Length and positions of the output\<close>

text \<open>
  Claim C7. For every machine with three rotors (or more) and every message, \<open>process\<close>
  returns a string of the length of the message, and the character at index \<open>i\<close> of the
  output is what \<open>encryptChar\<close> returns for the character at index \<open>i\<close> of the message,
  in the machine state reached after the first \<open>i\<close> characters, whose output is the
  first \<open>i\<close> characters of the whole output.
\<close>

theorem process_preserves_length_and_positions:
  assumes "3 \<le> length (rotors e)"
  shows "\<exists>out e'. process e msg = Inr (out, e') \<and> length out = length msg
     \<and> (\<forall>i<length msg. \<exists>ei ei'. process e (take i msg) = Inr (take i out, ei)
            \<and> encryptChar ei (msg ! i) = Inr (Some (out ! i), ei'))"
proof -
  from encryptChars_total [OF assms, of msg] obtain out e'
    where out: "encryptChars e msg = Inr (map Some out, e')" "length out = length msg" by blast
  have "\<exists>ei ei'. process e (take i msg) = Inr (take i out, ei)
            \<and> encryptChar ei (msg ! i) = Inr (Some (out ! i), ei')" if i: "i < length msg" for i
  proof -
    have split: "msg = take i msg @ (msg ! i # drop (Suc i) msg)"
      using i by (simp add: id_take_nth_drop [symmetric])
    from encryptChars_total [OF assms, of "take i msg"] obtain o1 e1
      where 1: "encryptChars e (take i msg) = Inr (map Some o1, e1)"
        "length o1 = length (take i msg)" "length (rotors e1) = length (rotors e)" by blast
    from 1(3) assms have r1: "3 \<le> length (rotors e1)" by simp
    from encryptChar_total [OF r1, of "msg ! i"] obtain d e2
      where 2: "encryptChar e1 (msg ! i) = Inr (Some d, e2)"
        "length (rotors e2) = length (rotors e1)" by blast
    from 2(2) r1 have r2: "3 \<le> length (rotors e2)" by simp
    from encryptChars_total [OF r2, of "drop (Suc i) msg"] obtain o3 e3
      where 3: "encryptChars e2 (drop (Suc i) msg) = Inr (map Some o3, e3)" by blast
    have "encryptChars e (take i msg @ (msg ! i # drop (Suc i) msg))
        = Inr (map Some (o1 @ d # o3), e3)"
      unfolding encryptChars_append using 1 2 3 by simp
    with split out(1) have "map Some out = map Some (o1 @ d # o3)" by simp
    then have eq: "out = o1 @ d # o3"
      by (rule map_injective) (simp add: inj_on_def)
    from 1(2) i have l1: "length o1 = i" by simp
    from eq l1 have "take i out = o1" "out ! i = d" by (simp_all add: nth_append)
    with 1 2 show ?thesis by (simp add: process_def join_map_Some)
  qed
  with out show ?thesis by (simp add: process_def join_map_Some)
qed

theorem process_preserves_length_and_positions_witness:
  "3 \<le> length (rotors \<lparr>rotors =
            [Rotor ''EKMFLGDQVZNTOWYHXUSPAIBRCJ'' (CHR ''Q'') (Some 0) (Some 0),
             Rotor ''AJDKSIRUXBLHWTMCQGZNPYFVOE'' (CHR ''E'') (Some 0) (Some 0),
             Rotor ''BDFHJLCPRTXVZNYEIWGAKMUSQO'' (CHR ''V'') (Some 0) (Some 0)],
          plugboardPairs = []\<rparr>)
   \<and> (\<exists>out e'. process \<lparr>rotors =
            [Rotor ''EKMFLGDQVZNTOWYHXUSPAIBRCJ'' (CHR ''Q'') (Some 0) (Some 0),
             Rotor ''AJDKSIRUXBLHWTMCQGZNPYFVOE'' (CHR ''E'') (Some 0) (Some 0),
             Rotor ''BDFHJLCPRTXVZNYEIWGAKMUSQO'' (CHR ''V'') (Some 0) (Some 0)],
          plugboardPairs = []\<rparr> ''Hi, YOU'' = Inr (out, e') \<and> length out = length ''Hi, YOU'')"
proof -
  let ?e = "\<lparr>rotors =
            [Rotor ''EKMFLGDQVZNTOWYHXUSPAIBRCJ'' (CHR ''Q'') (Some 0) (Some 0),
             Rotor ''AJDKSIRUXBLHWTMCQGZNPYFVOE'' (CHR ''E'') (Some 0) (Some 0),
             Rotor ''BDFHJLCPRTXVZNYEIWGAKMUSQO'' (CHR ''V'') (Some 0) (Some 0)],
          plugboardPairs = []\<rparr>"
  have h: "3 \<le> length (rotors ?e)" by simp
  from process_preserves_length_and_positions [OF h, of "''Hi, YOU''"] h
  show ?thesis by blast
qed

section \<open>The rightmost rotor advances once for each letter\<close>

text \<open>
  Claim C8. Rotors I, II, III start at positions (0, 0, 0). After a text that holds exactly
  one letter of \<open>A\<close>..\<open>Z\<close>, among any other characters, the rightmost rotor is at
  position 1; after a further text with exactly five letters it is at position 6.
\<close>

theorem rightmost_rotor_advances:
  assumes "length (filter (\<lambda>c. c \<in> set alphabet) t1) = 1"
    and "length (filter (\<lambda>c. c \<in> set alphabet) t2) = 5"
  shows "\<exists>e o1 e1 o2 e2.
     Enigma [0, 1, 2] [0, 0, 0] rings pairs = Inr e
     \<and> position (rotors e ! 2) = 0
     \<and> process e t1 = Inr (o1, e1) \<and> position (rotors e1 ! 2) = 1
     \<and> process e1 t2 = Inr (o2, e2) \<and> position (rotors e2 ! 2) = 6"
proof -
  let ?e = "\<lparr>rotors =
            [Rotor ''EKMFLGDQVZNTOWYHXUSPAIBRCJ'' (CHR ''Q'') (charAt rings 0) (Some 0),
             Rotor ''AJDKSIRUXBLHWTMCQGZNPYFVOE'' (CHR ''E'') (charAt rings 1) (Some 0),
             Rotor ''BDFHJLCPRTXVZNYEIWGAKMUSQO'' (CHR ''V'') (charAt rings 2) (Some 0)],
          plugboardPairs = pairs\<rparr>"
  have e: "Enigma [0, 1, 2] [0, 0, 0] rings pairs = Inr ?e" by (rule Enigma_I_II_III)
  have l0: "3 \<le> length (rotors ?e)" and p0: "position (rotors ?e ! 2) = 0" by simp_all
  from encryptChars_total [OF l0, of t1] obtain o1 e1
    where 1: "encryptChars ?e t1 = Inr (map Some o1, e1)"
      "length (rotors e1) = length (rotors ?e)" by blast
  from encryptChars_right_position [OF l0 _ _ 1(1)] p0 assms(1)
  have p1: "position (rotors e1 ! 2) = 1" by simp
  from 1(2) have l1: "3 \<le> length (rotors e1)" by simp
  from encryptChars_total [OF l1, of t2] obtain o2 e2
    where 2: "encryptChars e1 t2 = Inr (map Some o2, e2)" by blast
  from encryptChars_right_position [OF l1 _ _ 2(1)] p1 assms(2)
  have p2: "position (rotors e2 ! 2) = 6" by simp
  have "process ?e t1 = Inr (o1, e1)" "process e1 t2 = Inr (o2, e2)"
    using 1 2 by (simp_all add: process_def join_map_Some)
  with e p0 p1 p2 show ?thesis by blast
qed

theorem rightmost_rotor_advances_witness:
  "length (filter (\<lambda>c. c \<in> set alphabet) ''A'') = 1
   \<and> length (filter (\<lambda>c. c \<in> set alphabet) ''B1C D,EaF'') = 5
   \<and> (\<exists>e o1 e1 o2 e2.
     Enigma [0, 1, 2] [0, 0, 0] [0, 0, 0] [] = Inr e
     \<and> process e ''A'' = Inr (o1, e1) \<and> position (rotors e1 ! 2) = 1
     \<and> process e1 ''B1C D,EaF'' = Inr (o2, e2) \<and> position (rotors e2 ! 2) = 6)"
proof -
  have h1: "length (filter (\<lambda>c. c \<in> set alphabet) ''A'') = 1" by (simp add: alphabet_def)
  have h2: "length (filter (\<lambda>c. c \<in> set alphabet) ''B1C D,EaF'') = 5" by (simp add: alphabet_def)
  from rightmost_rotor_advances [OF h1 h2, of "[0, 0, 0]" "[]"] h1 h2
  show ?thesis by blast
qed

section \<open>Reciprocity\<close>

text \<open>
  Claim C1. Take three rotor identifiers of the catalog, any positions and ring settings
  (so in particular those in \<open>[0, 25]\<close>), plugboard pairs of letters of \<open>A\<close>..\<open>Z\<close> in
  which each letter appears in at most one pair, and a message \<open>m\<close> made of letters of
  \<open>A\<close>..\<open>Z\<close>. Two machines \<open>A\<close> and \<open>B\<close> constructed from this configuration satisfy:
  \<open>A.process(m)\<close> returns some \<open>c\<close>, and \<open>B.process(c)\<close> returns \<open>m\<close>.
\<close>

theorem reciprocity:
  assumes "length ids = 3" and "\<forall>x \<in> set ids. 0 \<le> x \<and> x \<le> 2"
    and "disjointPairs pairs" and "set (plugLetters pairs) \<subseteq> set alphabet"
    and "set m \<subseteq> set alphabet"
  shows "\<exists>A B c A' B'. Enigma ids ps rs pairs = Inr A \<and> Enigma ids ps rs pairs = Inr B
     \<and> process A m = Inr (c, A') \<and> process B c = Inr (m, B')"
proof -
  from Enigma_three_catalog [OF assms(1,2), of ps rs pairs] obtain e
    where e: "Enigma ids ps rs pairs = Inr e" "plugboardPairs e = pairs" "length (rotors e) = 3"
      "\<forall>w \<in> set (map wiring (rotors e)). distinct w \<and> set w = set alphabet" by blast
  from e(3) have l: "3 \<le> length (rotors e)" by simp
  from encryptChars_reciprocal [OF l e(4) _ _ assms(5)] assms(3,4) e(2) obtain c e'
    where c: "encryptChars e m = Inr (map Some c, e')" "encryptChars e c = Inr (map Some m, e')"
    by auto
  then have "process e m = Inr (c, e')" "process e c = Inr (m, e')"
    by (simp_all add: process_def join_map_Some)
  with e(1) show ?thesis by blast
qed

theorem reciprocity_witness:
  "\<exists>A B c A' B'.
     Enigma [0, 1, 2] [1, 2, 3] [2, 4, 6] [(CHR ''A'', CHR ''B''), (CHR ''C'', CHR ''D'')] = Inr A
     \<and> Enigma [0, 1, 2] [1, 2, 3] [2, 4, 6] [(CHR ''A'', CHR ''B''), (CHR ''C'', CHR ''D'')] = Inr B
     \<and> process A ''SECRET'' = Inr (c, A') \<and> process B c = Inr (''SECRET'', B')"
proof -
  have h1: "length [0, 1, 2 :: int] = 3" by simp
  have h2: "\<forall>x \<in> set [0, 1, 2 :: int]. 0 \<le> x \<and> x \<le> 2" by simp
  have h3: "disjointPairs [(CHR ''A'', CHR ''B''), (CHR ''C'', CHR ''D'')]"
    by (simp add: plugLetters_def)
  have h4: "set (plugLetters [(CHR ''A'', CHR ''B''), (CHR ''C'', CHR ''D'')]) \<subseteq> set alphabet"
    by (simp add: plugLetters_def alphabet_def)
  have h5: "set ''SECRET'' \<subseteq> set alphabet" by (simp add: alphabet_def)
  show ?thesis by (rule reciprocity [OF h1 h2 h3 h4 h5])
qed

section \<open>No letter is encrypted to itself\<close>

text \<open>
  Claim C9. Take a machine constructed from three rotor identifiers of the catalog, any
  positions and ring settings, and plugboard pairs in which each letter appears in at most
  one pair, in any state \<open>e\<close> it reaches by processing a message. For every letter \<open>c\<close>
  of \<open>A\<close>..\<open>Z\<close>, \<open>encryptChar\<close> returns a character different from \<open>c\<close>.
\<close>

theorem no_self_encryption:
  assumes "length ids = 3" and "\<forall>x \<in> set ids. 0 \<le> x \<and> x \<le> 2"
    and "disjointPairs pairs"
    and "Enigma ids ps rs pairs = Inr e0" and "process e0 msg = Inr (out, e)"
    and "c \<in> set alphabet"
  shows "\<exists>d e'. encryptChar e c = Inr (Some d, e') \<and> d \<noteq> c"
proof -
  from Enigma_three_catalog [OF assms(1,2), of ps rs pairs] assms(4)
  have e0: "plugboardPairs e0 = pairs" "length (rotors e0) = 3"
      "\<forall>w \<in> set (map wiring (rotors e0)). distinct w \<and> set w = set alphabet" by auto
  from process_frame [OF assms(5)]
  have f: "map wiring (rotors e) = map wiring (rotors e0)" "plugboardPairs e = plugboardPairs e0"
    by simp_all
  from f(1) e0(2) have l: "3 \<le> length (rotors e)" by (metis length_map order_refl)
  from stepRotors_ok [OF l] obtain e' where s: "stepRotors e = Inr e'"
    and l': "length (rotors e') = length (rotors e)" by blast
  from stepRotors_frame [OF s] f e0(3)
  have w': "\<forall>w \<in> set (map wiring (rotors e')). distinct w \<and> set w = set alphabet" by simp
  from l l' have ne: "rotors e' \<noteq> []" by auto
  have dp: "disjointPairs (plugboardPairs e)" using assms(3) f(2) e0(1) by simp
  let ?P = "plugboardPairs e"
  from plugboardSwap_Some [of c ?P] obtain c1 where c1: "plugboardSwap (Some c) ?P = Some c1"
    by blast
  from rotorCore_letter [OF ne, of "Some c1"] obtain x
    where x: "x \<in> set alphabet" "rotorCore (rotors e') (Some c1) = Some x" by blast
  from plugboardSwap_Some [of x ?P] obtain d where d: "plugboardSwap (Some x) ?P = Some d"
    by blast
  have enc: "encryptChar e c = Inr (Some d, e')"
    using encryptChar_letter_core [OF s assms(6)] c1 x d by simp
  have "d \<noteq> c"
  proof
    assume "d = c"
    with d have "plugboardSwap (plugboardSwap (Some x) ?P) ?P = plugboardSwap (Some c) ?P"
      by simp
    with plugboardSwap_involution [OF dp, of "Some x"] c1 have "x = c1" by simp
    with x rotorCore_involution [OF w' x(1)] show False by auto
  qed
  with enc show ?thesis by blast
qed

theorem no_self_encryption_witness:
  "\<exists>d e'. encryptChar
       \<lparr>rotors =
        [Rotor ''EKMFLGDQVZNTOWYHXUSPAIBRCJ'' (CHR ''Q'') (Some 0) (Some 0),
         Rotor ''AJDKSIRUXBLHWTMCQGZNPYFVOE'' (CHR ''E'') (Some 0) (Some 0),
         Rotor ''BDFHJLCPRTXVZNYEIWGAKMUSQO'' (CHR ''V'') (Some 0) (Some 0)],
      plugboardPairs = [(CHR ''A'', CHR ''B'')]\<rparr>
       (CHR ''A'') = Inr (Some d, e') \<and> d \<noteq> CHR ''A''"
proof -
  let ?e = "\<lparr>rotors =
        [Rotor ''EKMFLGDQVZNTOWYHXUSPAIBRCJ'' (CHR ''Q'') (Some 0) (Some 0),
         Rotor ''AJDKSIRUXBLHWTMCQGZNPYFVOE'' (CHR ''E'') (Some 0) (Some 0),
         Rotor ''BDFHJLCPRTXVZNYEIWGAKMUSQO'' (CHR ''V'') (Some 0) (Some 0)],
      plugboardPairs = [(CHR ''A'', CHR ''B'')]\<rparr>"
  have h1: "length [0, 1, 2 :: int] = 3" by simp
  have h2: "\<forall>x \<in> set [0, 1, 2 :: int]. 0 \<le> x \<and> x \<le> 2" by simp
  have h3: "disjointPairs [(CHR ''A'', CHR ''B'')]" by (simp add: plugLetters_def)
  have h4: "Enigma [0, 1, 2] [0, 0, 0] [0, 0, 0] [(CHR ''A'', CHR ''B'')] = Inr ?e"
    by (simp add: Enigma_I_II_III charAt_def)
  have h5: "process ?e ''1 a'' = Inr (''1 a'', ?e)"
    by (rule process_nonletters) (simp add: alphabet_def)
  have h6: "CHR ''A'' \<in> set alphabet" by (simp add: alphabet_def)
  show ?thesis by (rule no_self_encryption [OF h1 h2 h3 h4 h5 h6])
qed

section \<open>Letters stay letters and every table read is in range\<close>

text \<open>
  Claim C10. Take a machine constructed from three rotor identifiers of the catalog,
  positions in \<open>[0, 25]\<close>, any ring settings (so in particular those in \<open>[0, 25]\<close>) and
  plugboard pairs of letters of \<open>A\<close>..\<open>Z\<close>, in any state it reaches by processing a
  message. For every letter \<open>c\<close> of \<open>A\<close>..\<open>Z\<close>, \<open>encryptChar\<close> returns a letter of
  \<open>A\<close>..\<open>Z\<close>, and every index at which it reads \<open>alphabet\<close>, a wiring or \<open>REFLECTOR\<close>
  is at least 0 and less than the length of the table read.
\<close>

theorem alphabetic_closure:
  assumes "length ids = 3" and "\<forall>x \<in> set ids. 0 \<le> x \<and> x \<le> 2"
    and "\<forall>p \<in> set ps. 0 \<le> p \<and> p \<le> 25"
    and "set (plugLetters pairs) \<subseteq> set alphabet"
    and "Enigma ids ps rs pairs = Inr e0" and "process e0 msg = Inr (out, e)"
    and "c \<in> set alphabet"
  shows "\<exists>d e'. encryptChar e c = Inr (Some d, e') \<and> d \<in> set alphabet
     \<and> (\<forall>(n, i) \<in> set (encryptCharLookups e c). 0 \<le> i \<and> i < int n)"
proof -
  from Enigma_three_catalog [OF assms(1,2), of ps rs pairs] assms(5)
  have e0: "plugboardPairs e0 = pairs" "length (rotors e0) = 3"
      "\<forall>w \<in> set (map wiring (rotors e0)). distinct w \<and> set w = set alphabet" by auto
  from process_frame [OF assms(6)]
  have f: "map wiring (rotors e) = map wiring (rotors e0)" "plugboardPairs e = plugboardPairs e0"
    by simp_all
  have pos: "\<forall>r \<in> set (rotors e). 0 \<le> position r \<and> position r < 26"
    using process_positions [OF assms(6) Enigma_positions [OF assms(2,3,5)]] .
  from f(1) e0(2) have l: "3 \<le> length (rotors e)" by (metis length_map order_refl)
  from stepRotors_ok [OF l] obtain e' where s: "stepRotors e = Inr e'"
    and l': "length (rotors e') = length (rotors e)" by blast
  from stepRotors_frame [OF s] f e0(3)
  have w': "\<forall>w \<in> set (map wiring (rotors e')). distinct w \<and> set w = set alphabet" by simp
  have len26: "\<forall>r \<in> set (rev (rotors e')). length (wiring r) = 26"
    using w' perm_wiring_length by simp
  let ?P = "plugboardPairs e"
  have pl: "set (plugLetters ?P) \<subseteq> set alphabet" using assms(4) f(2) e0(1) by simp
  from plugboardSwap_letter [OF pl assms(7)] obtain c1
    where c1: "c1 \<in> set alphabet" "plugboardSwap (Some c) ?P = Some c1" by blast
  from fold_forward_letter [OF c1(1), of "rev (rotors e')"] obtain y
    where y: "y \<in> set alphabet" "fold forward (rev (rotors e')) (Some c1) = Some y" by blast
  from rotorCore_involution [OF w' c1(1)] obtain x
    where x: "x \<in> set alphabet" "rotorCore (rotors e') (Some c1) = Some x" by blast
  from plugboardSwap_letter [OF pl x(1)] obtain d
    where d: "d \<in> set alphabet" "plugboardSwap (Some x) ?P = Some d" by blast
  have enc: "encryptChar e c = Inr (Some d, e')"
    using encryptChar_letter_core [OF s assms(7)] c1 x d by simp
  from letter_nth [OF y(1)] obtain i where i: "i < 26" "y = alphabet ! i" by blast
  have ri: "0 \<le> indexOf alphabet [y] \<and> indexOf alphabet [y] < int (length REFLECTOR)"
    using i by (simp add: indexOf_alphabet_nth REFLECTOR_def)
  have pe: "plugboardPairs e' = ?P" using stepRotors_frame [OF s] by simp
  have lk: "encryptCharLookups e c =
      stepRotorsLookups e
      @ forwardChainLookups (rev (rotors e')) (Some c1)
      @ [(length REFLECTOR, indexOf alphabet [y])]
      @ backwardChainLookups (rotors e') (charAt REFLECTOR (indexOf alphabet [y]))"
    using assms(7) s c1 y pe
    by (simp add: encryptCharLookups_def includes_js_char Let_def toStr_def)
  have "\<forall>(n, i) \<in> set (encryptCharLookups e c). 0 \<le> i \<and> i < int n"
    unfolding lk
    using stepRotorsLookups_range [OF pos] forwardChainLookups_range [OF len26, of "Some c1"]
      backwardChainLookups_range [of "rotors e'" "charAt REFLECTOR (indexOf alphabet [y])"] ri
    by auto
  with enc d(1) show ?thesis by blast
qed

theorem alphabetic_closure_witness:
  "\<exists>d e'. encryptChar
       \<lparr>rotors =
        [Rotor ''EKMFLGDQVZNTOWYHXUSPAIBRCJ'' (CHR ''Q'') (Some 0) (Some 0),
         Rotor ''AJDKSIRUXBLHWTMCQGZNPYFVOE'' (CHR ''E'') (Some 0) (Some 0),
         Rotor ''BDFHJLCPRTXVZNYEIWGAKMUSQO'' (CHR ''V'') (Some 0) (Some 0)],
      plugboardPairs = [(CHR ''A'', CHR ''B'')]\<rparr>
       (CHR ''A'') = Inr (Some d, e') \<and> d \<in> set alphabet
     \<and> list_all (\<lambda>(n, i). 0 \<le> i \<and> i < int n) (encryptCharLookups
       \<lparr>rotors =
        [Rotor ''EKMFLGDQVZNTOWYHXUSPAIBRCJ'' (CHR ''Q'') (Some 0) (Some 0),
         Rotor ''AJDKSIRUXBLHWTMCQGZNPYFVOE'' (CHR ''E'') (Some 0) (Some 0),
         Rotor ''BDFHJLCPRTXVZNYEIWGAKMUSQO'' (CHR ''V'') (Some 0) (Some 0)],
      plugboardPairs = [(CHR ''A'', CHR ''B'')]\<rparr>
       (CHR ''A''))"
proof -
  let ?e = "\<lparr>rotors =
        [Rotor ''EKMFLGDQVZNTOWYHXUSPAIBRCJ'' (CHR ''Q'') (Some 0) (Some 0),
         Rotor ''AJDKSIRUXBLHWTMCQGZNPYFVOE'' (CHR ''E'') (Some 0) (Some 0),
         Rotor ''BDFHJLCPRTXVZNYEIWGAKMUSQO'' (CHR ''V'') (Some 0) (Some 0)],
      plugboardPairs = [(CHR ''A'', CHR ''B'')]\<rparr>"
  have h1: "length [0, 1, 2 :: int] = 3" by simp
  have h2: "\<forall>x \<in> set [0, 1, 2 :: int]. 0 \<le> x \<and> x \<le> 2" by simp
  have h3: "\<forall>p \<in> set [0, 0, 0 :: int]. 0 \<le> p \<and> p \<le> 25" by simp
  have h4: "set (plugLetters [(CHR ''A'', CHR ''B'')]) \<subseteq> set alphabet"
    by (simp add: plugLetters_def alphabet_def)
  have h5: "Enigma [0, 1, 2] [0, 0, 0] [0, 0, 0] [(CHR ''A'', CHR ''B'')] = Inr ?e"
    by (simp add: Enigma_I_II_III charAt_def)
  have h6: "process ?e ''1 a'' = Inr (''1 a'', ?e)"
    by (rule process_nonletters) (simp add: alphabet_def)
  have h7: "CHR ''A'' \<in> set alphabet" by (simp add: alphabet_def)
  from alphabetic_closure [OF h1 h2 h3 h4 h5 h6 h7]
  show ?thesis by (simp add: list_all_iff)
qed

end
